theory Spec2Isabelle
  imports Complex_Main "HOL-Library.Monad_Syntax"
begin

section \<open>Overlap-add STFT buffering: a model of OverlappingFFTProcessor\<close>

text \<open>
  The engine of \<^verbatim>\<open>Source/OverlappingFFTProcessor.h\<close> and its template predecessor
  \<^verbatim>\<open>Source/fftWithHopSizeAndHannWindowProcessor.h\<close> are embedded as functions on an explicit
  engine state. Conventions:
  \<^item> A sample is a value of an arbitrary type with \<open>0\<close>, \<open>+\<close> and \<open>*\<close>; nothing is assumed of
    these operations, so every statement made for all such types also holds when they are the
    operations of \<^verbatim>\<open>float\<close>. Only the window arithmetic is done over the reals.
  \<^item> An \<^verbatim>\<open>AudioBuffer<float>\<close> is a list of channels, each a list of samples. The number of
    samples that an \<^verbatim>\<open>AudioBuffer\<close> stores beside its channels is kept where the source reads
    it, for \<^verbatim>\<open>outputBuffer\<close>. A channel count or channel index is a \<open>nat\<close>; sample counts and
    offsets are \<open>int\<close>, since the source lets them go negative
    (\<^verbatim>\<open>notYetUsedAudioDataCount\<close>, \<^verbatim>\<open>shiftL\<close>, \<^verbatim>\<open>tooMuch\<close>).
  \<^item> \<^verbatim>\<open>prepare\<close> computes the buffer sizes from the block size of its caller in 32-bit \<^verbatim>\<open>int\<close>
    and in \<^verbatim>\<open>float\<close>; these operations are modelled with their range and their rounding.
    In \<^verbatim>\<open>process\<close> every count and offset is bounded by the sizes of the allocated buffers,
    so no wrap-around is written out there.
  \<^item> Every access to a channel that does not exist, or to a range of samples that is not inside
    its allocation, is undefined behaviour in the source; here it is the result \<open>None\<close>.
    A loop that does not end is \<open>None\<close> as well.
  \<^item> \<^verbatim>\<open>FloatVectorOperations::copy\<close> reads its source before it writes (the source shifts
    buffers in place towards lower addresses).
\<close>

subsection \<open>Sample ranges and channels\<close>

definition readRange :: "'a list \<Rightarrow> int \<Rightarrow> int \<Rightarrow> 'a list option" where
  "readRange xs start num =
     (if 0 \<le> start \<and> 0 \<le> num \<and> start + num \<le> int (length xs)
      then Some (take (nat num) (drop (nat start) xs)) else None)"

definition writeRange :: "'a list \<Rightarrow> int \<Rightarrow> 'a list \<Rightarrow> 'a list option" where
  "writeRange xs start ys =
     (if 0 \<le> start \<and> start + int (length ys) \<le> int (length xs)
      then Some (take (nat start) xs @ ys @ drop (nat start + length ys) xs) else None)"

definition getChannel :: "'a list list \<Rightarrow> nat \<Rightarrow> 'a list option" where
  "getChannel buf ch = (if ch < length buf then Some (buf ! ch) else None)"

text \<open>\<^verbatim>\<open>FloatVectorOperations::multiply (dest + d, src1 + s1, src2 + s2, num)\<close>\<close>

definition multiply ::
  "'a::times list \<Rightarrow> int \<Rightarrow> 'a list \<Rightarrow> int \<Rightarrow> 'a list \<Rightarrow> int \<Rightarrow> int \<Rightarrow> 'a list option" where
  "multiply dest d src1 s1 src2 s2 num =
     do { a \<leftarrow> readRange src1 s1 num;
          b \<leftarrow> readRange src2 s2 num;
          writeRange dest d (map2 (*) a b) }"

text \<open>\<^verbatim>\<open>FloatVectorOperations::copy (dest + d, src + s, num)\<close>\<close>

definition copy :: "'a list \<Rightarrow> int \<Rightarrow> 'a list \<Rightarrow> int \<Rightarrow> int \<Rightarrow> 'a list option" where
  "copy dest d src s num = do { a \<leftarrow> readRange src s num; writeRange dest d a }"

text \<open>\<^verbatim>\<open>FloatVectorOperations::clear (dest, num)\<close>\<close>

definition clear :: "'a::zero list \<Rightarrow> int \<Rightarrow> 'a list option" where
  "clear dest num = (if 0 \<le> num then writeRange dest 0 (replicate (nat num) 0) else None)"

text \<open>\<^verbatim>\<open>AudioBuffer::addFrom\<close> and \<^verbatim>\<open>AudioBuffer::copyFrom\<close> (gain 1).\<close>

definition addFrom ::
  "'a::plus list list \<Rightarrow> nat \<Rightarrow> int \<Rightarrow> 'a list list \<Rightarrow> nat \<Rightarrow> int \<Rightarrow> int \<Rightarrow> 'a list list option" where
  "addFrom buf destChannel destStartSample source sourceChannel sourceStartSample num =
     do { d \<leftarrow> getChannel buf destChannel;
          s \<leftarrow> getChannel source sourceChannel;
          old \<leftarrow> readRange d destStartSample num;
          new \<leftarrow> readRange s sourceStartSample num;
          d' \<leftarrow> writeRange d destStartSample (map2 (+) old new);
          Some (buf[destChannel := d']) }"

definition copyFrom ::
  "'a list list \<Rightarrow> nat \<Rightarrow> int \<Rightarrow> 'a list list \<Rightarrow> nat \<Rightarrow> int \<Rightarrow> int \<Rightarrow> 'a list list option" where
  "copyFrom buf destChannel destStartSample source sourceChannel sourceStartSample num =
     do { d \<leftarrow> getChannel buf destChannel;
          s \<leftarrow> getChannel source sourceChannel;
          d' \<leftarrow> copy d destStartSample s sourceStartSample num;
          Some (buf[destChannel := d']) }"

text \<open>
  \<^verbatim>\<open>AudioBuffer::setSize\<close> allocates without clearing: what the samples hold afterwards is
  whatever the memory held, given here by a function of channel and index.
  \<^verbatim>\<open>AudioBuffer::clear\<close> zeroes every sample.
\<close>

definition setSize :: "(nat \<Rightarrow> nat \<Rightarrow> 'a) \<Rightarrow> nat \<Rightarrow> int \<Rightarrow> 'a list list option" where
  "setSize mem newNumChannels newNumSamples =
     (if 0 \<le> newNumSamples
      then Some (map (\<lambda>ch. map (mem ch) [0..<nat newNumSamples]) [0..<newNumChannels])
      else None)"

definition clearBuffer :: "'a::zero list list \<Rightarrow> 'a list list" where
  "clearBuffer buf = map (\<lambda>c. replicate (length c) 0) buf"

text \<open>\<^verbatim>\<open>for (int ch = lo; ch < n; ++ch) body\<close>\<close>

function forCh :: "nat \<Rightarrow> nat \<Rightarrow> (nat \<Rightarrow> 's \<Rightarrow> 's option) \<Rightarrow> 's \<Rightarrow> 's option" where
  "forCh ch n body s =
     (if ch < n then (case body ch s of None \<Rightarrow> None | Some s' \<Rightarrow> forCh (Suc ch) n body s')
      else Some s)"
  by pat_completeness auto
termination
  by (relation "measure (\<lambda>(ch, n, body, s). n - ch)") auto

declare forCh.simps [simp del]

subsection \<open>The engine state\<close>

text \<open>
  The members of \<^verbatim>\<open>class OverlappingFFTProcessor\<close>. The \<^verbatim>\<open>dsp::FFT\<close> member is used by
  overrides of \<^verbatim>\<open>processFrameInBuffer\<close> only; that virtual method is the field
  \<open>processFrameInBuffer\<close>, a function of \<^verbatim>\<open>maxNumChannels\<close> on \<^verbatim>\<open>fftInOutBuffer\<close>.
  \<open>outputBufferNumSamples\<close> is the number of samples stored in the \<^verbatim>\<open>AudioBuffer\<close>
  \<^verbatim>\<open>outputBuffer\<close>, the value of \<^verbatim>\<open>outputBuffer.getNumSamples()\<close>: \<^verbatim>\<open>setSize\<close> stores it also
  when the buffer has no channel.
\<close>

record 'a engine =
  window :: "'a list"
  fftInOutBuffer :: "'a list list"
  fftSize :: int
  hopSize :: int
  nChIn :: nat
  nChOut :: nat
  notYetUsedAudioData :: "'a list list"
  outputBuffer :: "'a list list"
  outputBufferNumSamples :: int
  outputOffset :: int
  notYetUsedAudioDataCount :: int
  processFrameInBuffer :: "nat \<Rightarrow> 'a list list \<Rightarrow> 'a list list"

record 'a AudioBlock =
  channels :: "'a list list"
  numSamples :: int

definition getNumChannels :: "'a AudioBlock \<Rightarrow> nat" where
  "getNumChannels b = length (channels b)"

subsection \<open>Construction and \<^verbatim>\<open>prepare\<close>\<close>

text \<open>
  \<^verbatim>\<open>createWindow\<close>: the table is filled by \<^verbatim>\<open>dsp::WindowingFunction<float>::fillWindowingTables\<close>,
  library code that is not part of the repository; what it writes is the parameter \<open>table\<close>.
  The compensation factor is computed as in the source: integer divisions, then a reciprocal.
\<close>

definition hopSizeCompensateFactor :: "int \<Rightarrow> int \<Rightarrow> real" where
  "hopSizeCompensateFactor fftSz hopSz = 1 / of_int (fftSz div hopSz div 2)"

definition createWindow :: "real list \<Rightarrow> int \<Rightarrow> int \<Rightarrow> real list" where
  "createWindow table fftSz hopSz = map (\<lambda>elem. elem * hopSizeCompensateFactor fftSz hopSz) table"

text \<open>
  The constructor. A failing \<^verbatim>\<open>jassert\<close> is the result \<open>None\<close>. The buffers are empty and
  \<^verbatim>\<open>nChIn\<close>, \<^verbatim>\<open>nChOut\<close>, \<^verbatim>\<open>outputOffset\<close> are not initialised before \<^verbatim>\<open>prepare\<close>;
  they are given the value 0 here.
\<close>

definition OverlappingFFTProcessor :: "real list \<Rightarrow> nat \<Rightarrow> nat \<Rightarrow> real engine option" where
  "OverlappingFFTProcessor table fftSizeAsPowerOf2 hopSizeDividerAsPowerOf2 =
     (let fftSz = (2::int) ^ fftSizeAsPowerOf2;
          hopSz = fftSz div 2 ^ hopSizeDividerAsPowerOf2 in
      if \<not> (hopSizeDividerAsPowerOf2 > 0) then None
      else if \<not> (hopSizeDividerAsPowerOf2 \<le> fftSizeAsPowerOf2) then None
      else if int (length table) \<noteq> fftSz then None
      else Some \<lparr> window = createWindow table fftSz hopSz,
                  fftInOutBuffer = [],
                  fftSize = fftSz,
                  hopSize = hopSz,
                  nChIn = 0,
                  nChOut = 0,
                  notYetUsedAudioData = [],
                  outputBuffer = [],
                  outputBufferNumSamples = 0,
                  outputOffset = 0,
                  notYetUsedAudioDataCount = 0,
                  processFrameInBuffer = (\<lambda>maxNumChannels buf. buf) \<rparr>)"

text \<open>
  The arithmetic of \<^verbatim>\<open>prepare\<close>. An \<^verbatim>\<open>int\<close> has 32 bits and signed overflow is undefined
  behaviour: \<open>int32\<close> is the result of an \<^verbatim>\<open>int\<close> operation, \<open>None\<close> when it is out of range.
  A \<^verbatim>\<open>float\<close> is an IEEE single-precision number: \<open>roundToFloat\<close> rounds a real number
  to the nearest number with a 24-bit significand, ties to even. The exponent range of
  \<^verbatim>\<open>float\<close> is not bounded here; the magnitudes that \<^verbatim>\<open>prepare\<close> computes lie between
  \<open>2^-31\<close> and \<open>2^32\<close>.
\<close>

definition int32 :: "int \<Rightarrow> int option" where
  "int32 x = (if - (2 ^ 31) \<le> x \<and> x < 2 ^ 31 then Some x else None)"

definition roundHalfEven :: "real \<Rightarrow> int" where
  "roundHalfEven x =
     (let f = \<lfloor>x\<rfloor> in
      if x - of_int f < 1/2 then f
      else if 1/2 < x - of_int f then f + 1
      else if even f then f else f + 1)"

definition roundToFloat :: "real \<Rightarrow> real" where
  "roundToFloat x =
     (if x = 0 then 0
      else let ulp = 2 powr of_int (\<lfloor>log 2 \<bar>x\<bar>\<rfloor> - 23) in
           of_int (roundHalfEven (x / ulp)) * ulp)"

text \<open>
  \<^verbatim>\<open>1.0f + ((float) (bufferSize - 1)) / hopSize\<close>: the conversion of \<^verbatim>\<open>bufferSize - 1\<close>, the
  conversion of \<^verbatim>\<open>hopSize\<close>, the quotient and the sum are each rounded to \<^verbatim>\<open>float\<close>.
\<close>

definition floatHops :: "int \<Rightarrow> int \<Rightarrow> real" where
  "floatHops bufferSizeMinus1 hopSz =
     roundToFloat (1 + roundToFloat (roundToFloat (of_int bufferSizeMinus1)
                                      / roundToFloat (of_int hopSz)))"

text \<open>
  The loop of \<^verbatim>\<open>prepare\<close> whose result is overwritten one line later. When \<^verbatim>\<open>bufferSize\<close>
  is not positive it does not end, or its sum leaves the range of \<^verbatim>\<open>int\<close>.
\<close>

partial_function (option) prepareOffsetLoop :: "int \<Rightarrow> int \<Rightarrow> int \<Rightarrow> int option" where
  "prepareOffsetLoop fftSz bufferSize offset =
     (if offset < fftSz
      then do { offset' \<leftarrow> int32 (offset + bufferSize);
                prepareOffsetLoop fftSz bufferSize offset' }
      else Some offset)"

declare prepareOffsetLoop.simps [code]

text \<open>
  \<^verbatim>\<open>prepare\<close>. The sample rate is not used. \<open>memA\<close> and \<open>memF\<close> give the uninitialised
  contents of the two buffers that are not cleared. \<^verbatim>\<open>floor\<close> of a \<^verbatim>\<open>float\<close> is exact, and
  its conversion to \<^verbatim>\<open>int\<close> is undefined when the value is out of range.
\<close>

definition prepare ::
  "(nat \<Rightarrow> nat \<Rightarrow> 'a) \<Rightarrow> (nat \<Rightarrow> nat \<Rightarrow> 'a) \<Rightarrow> 'a::zero engine \<Rightarrow> int \<Rightarrow> nat \<Rightarrow> nat \<Rightarrow> 'a engine option" where
  "prepare memA memF s maximumBlockSize numInputChannels numOutputChannels =
     (let maxCh = max numInputChannels numOutputChannels;
          bufferSize = maximumBlockSize in
      do { fftSizeMinus1 \<leftarrow> int32 (fftSize s - 1);
           nyu \<leftarrow> setSize memA numInputChannels fftSizeMinus1;
           twiceFftSize \<leftarrow> int32 (2 * fftSize s);
           fft \<leftarrow> setSize memF maxCh twiceFftSize;
           bufferSizeMinus1 \<leftarrow> int32 (bufferSize - 1);
           k \<leftarrow> int32 \<lfloor>floatHops bufferSizeMinus1 (hopSize s)\<rfloor>;
           kTimesHop \<leftarrow> int32 (k * hopSize s);
           overlap \<leftarrow> int32 (fftSize s - hopSize s);
           M \<leftarrow> int32 (kTimesHop + overlap);
           MPlusBufferSize \<leftarrow> int32 (M + bufferSize);
           newNumSamples \<leftarrow> int32 (MPlusBufferSize - 1);
           ob \<leftarrow> setSize (\<lambda>ch i. 0) numInputChannels newNumSamples;
           offset \<leftarrow> prepareOffsetLoop (fftSize s) bufferSize 0;
           offsetMinusBufferSize \<leftarrow> int32 (offset - bufferSize);
           Some (s \<lparr> nChIn := numInputChannels,
                     nChOut := numOutputChannels,
                     notYetUsedAudioData := nyu,
                     fftInOutBuffer := fft,
                     outputBuffer := clearBuffer ob,
                     outputBufferNumSamples := newNumSamples,
                     outputOffset := fftSize s - 1,
                     notYetUsedAudioDataCount := 0 \<rparr>) })"

text \<open>\<^verbatim>\<open>reset\<close> has an empty body.\<close>

definition reset :: "'a engine \<Rightarrow> 'a engine" where
  "reset s = s"

subsection \<open>\<^verbatim>\<open>process\<close>\<close>

definition writeBackFrame :: "'a::plus engine \<Rightarrow> 'a engine option" where
  "writeBackFrame s =
     do { ob \<leftarrow> forCh 0 (nChOut s) (\<lambda>ch ob.
                 do { ob1 \<leftarrow> addFrom ob ch (outputOffset s) (fftInOutBuffer s) ch 0
                                 (fftSize s - hopSize s);
                      copyFrom ob1 ch (outputOffset s + fftSize s - hopSize s) (fftInOutBuffer s) ch
                                 (fftSize s - hopSize s) (hopSize s) })
               (outputBuffer s);
          Some (s \<lparr> outputBuffer := ob, outputOffset := outputOffset s + hopSize s \<rparr>) }"

definition callProcessFrameInBuffer :: "nat \<Rightarrow> 'a engine \<Rightarrow> 'a engine" where
  "callProcessFrameInBuffer maxNumChannels s =
     s \<lparr> fftInOutBuffer := processFrameInBuffer s maxNumChannels (fftInOutBuffer s) \<rparr>"

text \<open>The channel loop of the first \<^verbatim>\<open>while\<close>: left-overs, then new samples, both windowed.\<close>

definition fillFromLeftOvers :: "'a::times engine \<Rightarrow> 'a AudioBlock \<Rightarrow> nat \<Rightarrow> int \<Rightarrow> 'a list list option" where
  "fillFromLeftOvers s inputBlock numChIn notYetUsedAudioDataOffset =
     forCh 0 numChIn (\<lambda>ch fft.
        do { d \<leftarrow> getChannel fft ch;
             a \<leftarrow> getChannel (notYetUsedAudioData s) ch;
             d1 \<leftarrow> multiply d 0 a notYetUsedAudioDataOffset (window s) 0
                     (notYetUsedAudioDataCount s);
             i \<leftarrow> getChannel (channels inputBlock) ch;
             d2 \<leftarrow> multiply d1 (notYetUsedAudioDataCount s) i 0 (window s)
                     (notYetUsedAudioDataCount s) (fftSize s - notYetUsedAudioDataCount s);
             Some (fft[ch := d2]) })
       (fftInOutBuffer s)"

partial_function (option) whileLeftOvers ::
  "'a::{plus,times} AudioBlock \<Rightarrow> nat \<Rightarrow> nat \<Rightarrow> 'a engine \<Rightarrow> int \<Rightarrow> ('a engine \<times> int) option" where
  "whileLeftOvers inputBlock numChIn maxNumChannels s notYetUsedAudioDataOffset =
     (if notYetUsedAudioDataCount s > 0
         \<and> notYetUsedAudioDataCount s + numSamples inputBlock \<ge> fftSize s
      then
        (case fillFromLeftOvers s inputBlock numChIn notYetUsedAudioDataOffset of
           None \<Rightarrow> None
         | Some fft \<Rightarrow>
            (case writeBackFrame (callProcessFrameInBuffer maxNumChannels
                                    (s \<lparr> fftInOutBuffer := fft \<rparr>)) of
               None \<Rightarrow> None
             | Some s' \<Rightarrow>
                 whileLeftOvers inputBlock numChIn maxNumChannels
                   (s' \<lparr> notYetUsedAudioDataCount := notYetUsedAudioDataCount s' - hopSize s' \<rparr>)
                   (notYetUsedAudioDataOffset + hopSize s')))
      else Some (s, notYetUsedAudioDataOffset))"

declare whileLeftOvers.simps [code]

text \<open>The branch for left-overs that the new samples do not complete to a frame.\<close>

definition appendToLeftOvers ::
  "'a engine \<Rightarrow> 'a AudioBlock \<Rightarrow> nat \<Rightarrow> int \<Rightarrow> int \<Rightarrow> 'a engine option" where
  "appendToLeftOvers s inputBlock numChIn initialNotYetUsedAudioDataCount usedSamples =
     do { nyu \<leftarrow> forCh 0 numChIn (\<lambda>ch nyu.
                  do { d \<leftarrow> getChannel nyu ch;
                       d1 \<leftarrow> copy d 0 d (initialNotYetUsedAudioDataCount - notYetUsedAudioDataCount s)
                               (notYetUsedAudioDataCount s);
                       i \<leftarrow> getChannel (channels inputBlock) ch;
                       d2 \<leftarrow> copy d1 (notYetUsedAudioDataCount s) i usedSamples
                               (numSamples inputBlock);
                       Some (nyu[ch := d2]) })
                (notYetUsedAudioData s);
          Some (s \<lparr> notYetUsedAudioData := nyu,
                    notYetUsedAudioDataCount := notYetUsedAudioDataCount s + numSamples inputBlock \<rparr>) }"

text \<open>The channel loop of the second \<^verbatim>\<open>while\<close>: a whole frame from the new samples.\<close>

definition fillFromInput :: "'a::times engine \<Rightarrow> 'a AudioBlock \<Rightarrow> nat \<Rightarrow> int \<Rightarrow> 'a list list option" where
  "fillFromInput s inputBlock numChIn dataOffset =
     forCh 0 numChIn (\<lambda>ch fft.
        do { d \<leftarrow> getChannel fft ch;
             i \<leftarrow> getChannel (channels inputBlock) ch;
             d1 \<leftarrow> multiply d 0 i dataOffset (window s) 0 (fftSize s);
             Some (fft[ch := d1]) })
       (fftInOutBuffer s)"

partial_function (option) whileInput ::
  "'a::{plus,times} AudioBlock \<Rightarrow> nat \<Rightarrow> nat \<Rightarrow> 'a engine \<Rightarrow> int \<Rightarrow> ('a engine \<times> int) option" where
  "whileInput inputBlock numChIn maxNumChannels s dataOffset =
     (if numSamples inputBlock - dataOffset \<ge> fftSize s
      then
        (case fillFromInput s inputBlock numChIn dataOffset of
           None \<Rightarrow> None
         | Some fft \<Rightarrow>
            (case writeBackFrame (callProcessFrameInBuffer maxNumChannels
                                    (s \<lparr> fftInOutBuffer := fft \<rparr>)) of
               None \<Rightarrow> None
             | Some s' \<Rightarrow>
                 whileInput inputBlock numChIn maxNumChannels s' (dataOffset + hopSize s')))
      else Some (s, dataOffset))"

declare whileInput.simps [code]

text \<open>The branch taken when all left-overs are used up.\<close>

definition consumeInput ::
  "'a::{plus,times} engine \<Rightarrow> 'a AudioBlock \<Rightarrow> nat \<Rightarrow> nat \<Rightarrow> 'a engine option" where
  "consumeInput s inputBlock numChIn maxNumChannels =
     do { (s1, dataOffset) \<leftarrow> whileInput inputBlock numChIn maxNumChannels s
                                  (- notYetUsedAudioDataCount s);
          let remainingSamples = numSamples inputBlock - dataOffset;
          nyu \<leftarrow> (if remainingSamples > 0
                  then forCh 0 numChIn (\<lambda>ch nyu.
                         do { d \<leftarrow> getChannel nyu ch;
                              i \<leftarrow> getChannel (channels inputBlock) ch;
                              d1 \<leftarrow> copy d 0 i dataOffset (numSamples inputBlock - dataOffset);
                              Some (nyu[ch := d1]) })
                       (notYetUsedAudioData s1)
                  else Some (notYetUsedAudioData s1));
          Some (s1 \<lparr> notYetUsedAudioData := nyu,
                     notYetUsedAudioDataCount := remainingSamples \<rparr>) }"

text \<open>
  The last part of \<^verbatim>\<open>process\<close>: the processed samples are returned and the output buffer
  is shifted. \<open>shiftLength\<close> is the value of \<^verbatim>\<open>shiftL\<close> after the clamp, and
  \<^verbatim>\<open>outputBuffer.getNumSamples()\<close> is the field \<open>outputBufferNumSamples\<close>.
\<close>

definition tooMuch :: "'a engine \<Rightarrow> int \<Rightarrow> int" where
  "tooMuch s L =
     (let shiftStart = L;
          shiftL = outputOffset s + fftSize s - hopSize s - L in
      shiftStart + shiftL - outputBufferNumSamples s)"

definition shiftLength :: "'a engine \<Rightarrow> int \<Rightarrow> int" where
  "shiftLength s L =
     (let shiftL = outputOffset s + fftSize s - hopSize s - L in
      if tooMuch s L > 0 then shiftL - tooMuch s L else shiftL)"

definition returnProcessedSamples ::
  "'a::zero engine \<Rightarrow> int \<Rightarrow> nat \<Rightarrow> 'a AudioBlock \<Rightarrow> ('a engine \<times> 'a AudioBlock) option" where
  "returnProcessedSamples s L numChOut outputBlock =
     (let shiftStart = L;
          shiftL = shiftLength s L in
      do { (out, ob) \<leftarrow> forCh 0 numChOut (\<lambda>ch (out, ob).
                          do { dst \<leftarrow> getChannel out ch;
                               b \<leftarrow> getChannel ob ch;
                               o1 \<leftarrow> copy dst 0 b 0 L;
                               b1 \<leftarrow> copy b 0 b shiftStart shiftL;
                               Some (out[ch := o1], ob[ch := b1]) })
                        (channels outputBlock, outputBuffer s);
           out' \<leftarrow> forCh numChOut (getNumChannels outputBlock) (\<lambda>ch out.
                     do { dst \<leftarrow> getChannel out ch;
                          o1 \<leftarrow> clear dst L;
                          Some (out[ch := o1]) })
                   out;
           Some (s \<lparr> outputBuffer := ob, outputOffset := outputOffset s - L \<rparr>,
                 outputBlock \<lparr> channels := out' \<rparr>) })"

definition process ::
  "'a::{zero,plus,times} engine \<Rightarrow> 'a AudioBlock \<Rightarrow> 'a AudioBlock \<Rightarrow> ('a engine \<times> 'a AudioBlock) option" where
  "process s inputBlock outputBlock =
     (let L = numSamples inputBlock;
          numChIn = min (getNumChannels inputBlock) (nChIn s);
          numChOut = min (getNumChannels outputBlock) (nChOut s);
          maxNumChannels = max numChIn numChOut;
          initialNotYetUsedAudioDataCount = notYetUsedAudioDataCount s;
          usedSamples = 0 in
      do { (s1, notYetUsedAudioDataOffset) \<leftarrow> whileLeftOvers inputBlock numChIn maxNumChannels s 0;
           s2 \<leftarrow> (if notYetUsedAudioDataCount s1 > 0
                  then appendToLeftOvers s1 inputBlock numChIn initialNotYetUsedAudioDataCount
                         usedSamples
                  else consumeInput s1 inputBlock numChIn maxNumChannels);
           returnProcessedSamples s2 L numChOut outputBlock })"


subsection \<open>The template engine \<^verbatim>\<open>FftWithHopSizeAndHannWindowProcessor<fftPowerOf2>\<close>\<close>

text \<open>
  The members of the class template of \<^verbatim>\<open>Source/fftWithHopSizeAndHannWindowProcessor.h\<close>,
  with the suffix \<open>_T\<close>. Its \<^verbatim>\<open>processFrameInBuffer\<close> takes no argument. \<^verbatim>\<open>prepare\<close> computes
  in \<^verbatim>\<open>int\<close> and \<^verbatim>\<open>float\<close> as the one of the runtime engine does.
\<close>

record 'a engine_T =
  fftInOutBuffer_T :: "'a list list"
  fftSize_T :: int
  hopSize_T :: int
  hannWindow :: "'a list"
  notYetUsedAudioData_T :: "'a list list"
  outputBuffer_T :: "'a list list"
  outputBufferNumSamples_T :: int
  outputOffset_T :: int
  notYetUsedAudioDataCount_T :: int
  processFrameInBuffer_T :: "'a list list \<Rightarrow> 'a list list"

definition reset_T :: "'a engine_T \<Rightarrow> 'a engine_T" where
  "reset_T t = t \<lparr> notYetUsedAudioDataCount_T := 0 \<rparr>"















section \<open>Specification-level functions and invariants\<close>

definition chanUpd :: "nat \<Rightarrow> nat \<Rightarrow> (nat \<Rightarrow> 'b \<Rightarrow> 'b) \<Rightarrow> 'b list \<Rightarrow> 'b list" where
  "chanUpd lo n g b = map (\<lambda>ch. if lo \<le> ch \<and> ch < n then g ch (b ! ch) else b ! ch) [0..<length b]"

definition olaWrite :: "nat \<Rightarrow> nat \<Rightarrow> nat \<Rightarrow> 'a::plus list \<Rightarrow> 'a list \<Rightarrow> 'a list" where
  "olaWrite N h off d f =
     take off d @ map2 (+) (take (N - h) (drop off d)) (take (N - h) f)
       @ take h (drop (N - h) f) @ drop (off + N) d"

definition windowed :: "nat \<Rightarrow> 'a::times list \<Rightarrow> 'a list \<Rightarrow> 'a list \<Rightarrow> 'a list" where
  "windowed N w z d = map2 (*) (take N z) w @ drop N d"

abbreviation fftN :: "'a engine \<Rightarrow> nat" where "fftN s \<equiv> nat (fftSize s)"

abbreviation hopN :: "'a engine \<Rightarrow> nat" where "hopN s \<equiv> nat (hopSize s)"

definition writeBackSpec :: "'a::plus engine \<Rightarrow> 'a engine" where
  "writeBackSpec s =
     s \<lparr> outputBuffer :=
           chanUpd 0 (nChOut s)
             (\<lambda>ch d. olaWrite (fftN s) (hopN s) (nat (outputOffset s)) d (fftInOutBuffer s ! ch))
             (outputBuffer s),
         outputOffset := outputOffset s + hopSize s \<rparr>"

definition writeBackOK :: "'a engine \<Rightarrow> bool" where
  "writeBackOK s \<longleftrightarrow>
     (0 < nChOut s \<longrightarrow> nChOut s \<le> length (outputBuffer s)) \<and>
     (\<forall>ch < nChOut s. ch < length (fftInOutBuffer s) \<and> 0 \<le> outputOffset s \<and> 0 \<le> hopSize s \<and>
         hopSize s \<le> fftSize s \<and>
         outputOffset s + fftSize s \<le> int (length (outputBuffer s ! ch)) \<and>
         fftSize s \<le> int (length (fftInOutBuffer s ! ch)))"

definition loadFrames :: "'a::times engine \<Rightarrow> nat \<Rightarrow> 'a list list \<Rightarrow> 'a list list" where
  "loadFrames s numChIn z =
     chanUpd 0 numChIn (\<lambda>ch d. windowed (fftN s) (window s) (z ! ch) d) (fftInOutBuffer s)"

definition outputBufferSize :: "int \<Rightarrow> int \<Rightarrow> int \<Rightarrow> int" where
  "outputBufferSize fftSz hopSz bufferSize =
     \<lfloor>floatHops (bufferSize - 1) hopSz\<rfloor> * hopSz + (fftSz - hopSz) + bufferSize - 1"

definition shapeOK :: "int \<Rightarrow> 'a engine \<Rightarrow> bool" where
  "shapeOK B s \<longleftrightarrow>
     0 < hopSize s \<and> hopSize s \<le> fftSize s \<and> 1 \<le> B \<and>
     int (length (window s)) = fftSize s \<and>
     length (notYetUsedAudioData s) = nChIn s \<and>
     (\<forall>ch < nChIn s. int (length (notYetUsedAudioData s ! ch)) = fftSize s - 1) \<and>
     length (fftInOutBuffer s) = max (nChIn s) (nChOut s) \<and>
     (\<forall>ch < max (nChIn s) (nChOut s). int (length (fftInOutBuffer s ! ch)) = 2 * fftSize s) \<and>
     length (outputBuffer s) = nChIn s \<and>
     (\<forall>ch < nChIn s. int (length (outputBuffer s ! ch)) = outputBufferSize (fftSize s) (hopSize s) B) \<and>
     outputBufferNumSamples s = outputBufferSize (fftSize s) (hopSize s) B \<and>
     (\<forall>m b. map length (processFrameInBuffer s m b) = map length b)"

definition engineOK :: "int \<Rightarrow> 'a engine \<Rightarrow> bool" where
  "engineOK B s \<longleftrightarrow>
     shapeOK B s \<and> 0 \<le> notYetUsedAudioDataCount s \<and> notYetUsedAudioDataCount s \<le> fftSize s - 1 \<and>
     outputOffset s = fftSize s - 1 - notYetUsedAudioDataCount s"

definition frameStep :: "nat \<Rightarrow> nat \<Rightarrow> (nat \<Rightarrow> 'a list) \<Rightarrow> 'a::{plus,times} engine \<Rightarrow> 'a engine" where
  "frameStep numChIn maxNumChannels z s =
     writeBackSpec (callProcessFrameInBuffer maxNumChannels
       (s \<lparr> fftInOutBuffer := loadFrames s numChIn (map z [0..<numChIn]) \<rparr>))"

primrec frames ::
  "nat \<Rightarrow> nat \<Rightarrow> nat \<Rightarrow> (nat \<Rightarrow> 'a list) \<Rightarrow> 'a::{plus,times} engine \<Rightarrow> 'a engine" where
  "frames numChIn maxNumChannels 0 z s = s"
| "frames numChIn maxNumChannels (Suc n) z s =
     frames numChIn maxNumChannels n (\<lambda>ch. drop (hopN s) (z ch)) (frameStep numChIn maxNumChannels z s)"

definition appendSpec :: "'a engine \<Rightarrow> 'a AudioBlock \<Rightarrow> nat \<Rightarrow> int \<Rightarrow> 'a engine" where
  "appendSpec s inp ci init =
     s \<lparr> notYetUsedAudioData :=
           chanUpd 0 ci (\<lambda>ch d. take (nat (notYetUsedAudioDataCount s))
                                   (drop (nat (init - notYetUsedAudioDataCount s)) d)
                                @ channels inp ! ch
                                @ drop (nat (notYetUsedAudioDataCount s) + nat (numSamples inp)) d)
             (notYetUsedAudioData s),
         notYetUsedAudioDataCount := notYetUsedAudioDataCount s + numSamples inp \<rparr>"

definition returnSpec :: "'a::zero engine \<Rightarrow> int \<Rightarrow> nat \<Rightarrow> 'a AudioBlock \<Rightarrow> 'a engine \<times> 'a AudioBlock" where
  "returnSpec s L numChOut outputBlock =
     (s \<lparr> outputBuffer :=
            chanUpd 0 numChOut (\<lambda>ch b. take (nat (shiftLength s L)) (drop (nat L) b)
                                        @ drop (nat (shiftLength s L)) b) (outputBuffer s),
          outputOffset := outputOffset s - L \<rparr>,
      outputBlock \<lparr> channels :=
        map (\<lambda>ch. if ch < numChOut
                   then take (nat L) (outputBuffer s ! ch) @ drop (nat L) (channels outputBlock ! ch)
                   else replicate (nat L) 0 @ drop (nat L) (channels outputBlock ! ch))
            [0..<length (channels outputBlock)] \<rparr>)"

definition numFrames :: "int \<Rightarrow> int \<Rightarrow> int \<Rightarrow> nat" where
  "numFrames N h T = (if T < N then 0 else nat ((T - N) div h) + 1)"

definition pending :: "'a engine \<Rightarrow> 'a AudioBlock \<Rightarrow> nat \<Rightarrow> 'a list" where
  "pending s inputBlock ch =
     take (nat (notYetUsedAudioDataCount s)) (notYetUsedAudioData s ! ch) @ channels inputBlock ! ch"

definition blockOK :: "int \<Rightarrow> 'a AudioBlock \<Rightarrow> bool" where
  "blockOK L b \<longleftrightarrow> numSamples b = L \<and> 0 \<le> L \<and>
                 (\<forall>ch < length (channels b). int (length (channels b ! ch)) = L)"

fun processBlocks ::
  "'a::{zero,plus,times} engine \<Rightarrow> ('a AudioBlock \<times> 'a AudioBlock) list
     \<Rightarrow> ('a engine \<times> 'a AudioBlock list) option" where
  "processBlocks s [] = Some (s, [])"
| "processBlocks s ((inputBlock, outputBlock) # rest) =
     (case process s inputBlock outputBlock of
        None \<Rightarrow> None
      | Some (s1, out) \<Rightarrow>
          (case processBlocks s1 rest of
             None \<Rightarrow> None
           | Some (s2, outs) \<Rightarrow> Some (s2, out # outs)))"

definition callsOK :: "int \<Rightarrow> ('a AudioBlock \<times> 'a AudioBlock) list \<Rightarrow> bool" where
  "callsOK B calls \<longleftrightarrow>
     (\<forall>k < length calls. \<exists>L. blockOK L (fst (calls ! k)) \<and> blockOK L (snd (calls ! k)) \<and> L \<le> B)"


definition exampleTable :: "real list" where
  "exampleTable = [0, 1/2, 1, 1/2]"

definition exampleEngine :: "real engine" where
  "exampleEngine =
     \<lparr> window = [0, 1/2, 1, 1/2],
       fftInOutBuffer = [[0, 0, 0, 0, 0, 0, 0, 0]],
       fftSize = 4,
       hopSize = 2,
       nChIn = 1,
       nChOut = 1,
       notYetUsedAudioData = [[0, 0, 0]],
       outputBuffer = [[0, 0, 0, 0, 0, 0, 0, 0, 0]],
       outputBufferNumSamples = 9,
       outputOffset = 3,
       notYetUsedAudioDataCount = 0,
       processFrameInBuffer = (\<lambda>maxNumChannels buf. buf) \<rparr>"

definition monoBlock :: "'a list \<Rightarrow> 'a AudioBlock" where
  "monoBlock xs = \<lparr> channels = [xs], numSamples = int (length xs) \<rparr>"

definition exampleCalls :: "(real AudioBlock \<times> real AudioBlock) list" where
  "exampleCalls = [(monoBlock [1, 2, 3], monoBlock [0, 0, 0]),
                   (monoBlock [4, 5, 6, 7], monoBlock [0, 0, 0, 0])]"

definition stereoBlock :: "'a list \<Rightarrow> 'a list \<Rightarrow> 'a AudioBlock" where
  "stereoBlock xs ys = \<lparr> channels = [xs, ys], numSamples = int (length xs) \<rparr>"

definition wideEngine :: "real engine" where
  "wideEngine =
     \<lparr> window = [0, 1/2, 1, 1/2],
       fftInOutBuffer = [[0, 0, 0, 0, 0, 0, 0, 0], [0, 0, 0, 0, 0, 0, 0, 0]],
       fftSize = 4,
       hopSize = 2,
       nChIn = 1,
       nChOut = 2,
       notYetUsedAudioData = [[0, 0, 0]],
       outputBuffer = [[0, 0, 0, 0, 0, 0, 0, 0, 0]],
       outputBufferNumSamples = 9,
       outputOffset = 3,
       notYetUsedAudioDataCount = 0,
       processFrameInBuffer = (\<lambda>maxNumChannels buf. buf) \<rparr>"

definition exampleAfterThree :: "real engine" where
  "exampleAfterThree =
     exampleEngine \<lparr> notYetUsedAudioData := [[1, 2, 3]], outputOffset := 0,
                     notYetUsedAudioDataCount := 3 \<rparr>"






definition doubling :: "nat \<Rightarrow> real list list \<Rightarrow> real list list" where
  "doubling maxNumChannels buf = map (map (\<lambda>x. 2 * x)) buf"

definition exampleMid :: "real engine" where
  "exampleMid =
     exampleEngine \<lparr> fftInOutBuffer := [[0, 2, 6, 4, 0, 0, 0, 0]],
                     notYetUsedAudioData := [[3, 4, 0]],
                     outputBuffer := [[2, 6, 4, 0, 2, 6, 4, 0, 0]],
                     outputOffset := 1,
                     notYetUsedAudioDataCount := 2,
                     processFrameInBuffer := doubling \<rparr>"



section \<open>Properties\<close>

lemma roundHalfEven_of_int [simp]: "roundHalfEven (of_int i) = i"
  by (simp add: roundHalfEven_def)

lemma roundHalfEven_ge_floor: "\<lfloor>x\<rfloor> \<le> roundHalfEven x"
  by (simp add: roundHalfEven_def Let_def)

lemma roundToFloat_exact:
  assumes m: "\<bar>m\<bar> < 2 ^ 24"
  shows "roundToFloat (of_int m / 2 ^ j) = of_int m / 2 ^ j"
proof (cases "m = 0")
  case True
  then show ?thesis by (simp add: roundToFloat_def)
next
  case False
  define x :: real where "x = of_int m / 2 ^ j"
  define k where "k = \<lfloor>log 2 \<bar>x\<bar>\<rfloor>"
  have x0: "x \<noteq> 0" "0 < \<bar>x\<bar>" using False by (simp_all add: x_def)
  have ax: "\<bar>x\<bar> = of_int \<bar>m\<bar> / 2 ^ j" by (simp add: x_def abs_divide)
  have "of_int \<bar>m\<bar> < (2::real) ^ 24" using m by (metis of_int_less_numeral_power_cancel_iff)
  then have lt: "\<bar>x\<bar> < 2 ^ 24 / 2 ^ j" unfolding ax by (simp add: divide_strict_right_mono)
  have "2 powr of_int k \<le> \<bar>x\<bar>"
    using floor_log_eq_powr_iff [of "\<bar>x\<bar>" 2 k] x0 by (simp add: k_def)
  with lt have "2 powr of_int k < (2::real) ^ 24 / 2 ^ j" by simp
  also have "(2::real) ^ 24 / 2 ^ j = 2 powr of_int (24 - int j)"
  proof -
    have "(2::real) powr of_int (24 - int j) = 2 powr (real 24 - real j)" by simp
    also have "\<dots> = 2 powr real 24 / 2 powr real j" by (rule powr_diff)
    also have "\<dots> = 2 ^ 24 / 2 ^ j" by (simp only: powr_realpow [of 2] zero_less_numeral)
    finally show ?thesis by simp
  qed
  finally have "of_int k < (of_int (24 - int j) :: real)" by (simp only: powr_less_cancel_iff [of 2] one_less_numeral_iff semiring_norm)
  then have kj: "k \<le> 23 - int j" by linarith
  define d where "d = nat (23 - int j - k)"
  have e: "k - 23 = - (int j + int d)" using kj by (simp add: d_def)
  have u: "2 powr of_int (k - 23) = 1 / ((2::real) ^ j * 2 ^ d)"
  proof -
    have "(2::real) powr of_int (k - 23) = 2 powr - real (j + d)" unfolding e by simp
    also have "\<dots> = 1 / 2 powr real (j + d)" by (rule powr_minus_divide)
    also have "\<dots> = 1 / 2 ^ (j + d)" by (simp only: powr_realpow [of 2] zero_less_numeral)
    finally show ?thesis by (simp add: power_add)
  qed
  have q: "x / (2 powr of_int (k - 23)) = of_int (m * 2 ^ d)"
    unfolding u x_def by simp
  have "roundToFloat x = of_int (roundHalfEven (x / (2 powr of_int (k - 23)))) * 2 powr of_int (k - 23)"
    using x0 by (simp add: roundToFloat_def k_def Let_def)
  also have "\<dots> = of_int (m * 2 ^ d) * 2 powr of_int (k - 23)"
    by (simp only: q roundHalfEven_of_int)
  also have "\<dots> = of_int (m * 2 ^ d) * (1 / ((2::real) ^ j * 2 ^ d))"
    by (simp only: u)
  also have "\<dots> = x" by (simp add: x_def)
  finally show ?thesis by (simp add: x_def)
qed

lemma roundToFloat_of_int:
  "\<bar>m\<bar> < 2 ^ 24 \<Longrightarrow> roundToFloat (of_int m) = of_int m"
  using roundToFloat_exact [of m 0] by simp

lemma roundToFloat_nonneg:
  assumes "0 \<le> x"
  shows "0 \<le> roundToFloat x"
proof (cases "x = 0")
  case True
  then show ?thesis by (simp add: roundToFloat_def)
next
  case False
  define u :: real where "u = 2 powr of_int (\<lfloor>log 2 \<bar>x\<bar>\<rfloor> - 23)"
  have u: "0 < u" by (simp add: u_def)
  have "0 \<le> x / u" using assms u by simp
  then have "0 \<le> \<lfloor>x / u\<rfloor>" by simp
  then have "0 \<le> roundHalfEven (x / u)" using roundHalfEven_ge_floor [of "x / u"] by linarith
  then have "0 \<le> of_int (roundHalfEven (x / u)) * u" using u by simp
  then show ?thesis using False by (simp add: roundToFloat_def u_def Let_def)
qed

lemma roundToFloat_ge_one:
  assumes "1 \<le> x"
  shows "1 \<le> roundToFloat x"
proof -
  define k where "k = \<lfloor>log 2 \<bar>x\<bar>\<rfloor>"
  define u :: real where "u = 2 powr of_int (k - 23)"
  have x0: "x \<noteq> 0" "0 < x" "\<bar>x\<bar> = x" using assms by simp_all
  have u: "0 < u" by (simp add: u_def)
  have kx: "2 powr of_int k \<le> x"
    using floor_log_eq_powr_iff [of x 2 k] x0 by (simp add: k_def)
  have "0 \<le> log 2 x" using assms by simp
  then have k0: "0 \<le> k" using x0 by (simp add: k_def)
  have uk: "2 powr of_int k = 2 ^ 23 * u"
    by (simp add: u_def powr_diff)
  have "(2::real) ^ 23 \<le> x / u" using kx u unfolding uk by (simp add: pos_le_divide_eq)
  then have "of_int (2 ^ 23) \<le> x / u" by simp
  then have "2 ^ 23 \<le> \<lfloor>x / u\<rfloor>" by (subst le_floor_iff)
  then have "2 ^ 23 \<le> roundHalfEven (x / u)" using roundHalfEven_ge_floor [of "x / u"] by linarith
  then have "(2::real) ^ 23 \<le> of_int (roundHalfEven (x / u))"
    by (metis of_int_le_iff of_int_numeral of_int_power)
  then have "2 ^ 23 * u \<le> of_int (roundHalfEven (x / u)) * u" using u by simp
  moreover have "1 \<le> (2::real) powr of_int k" using k0 by (simp add: ge_one_powr_ge_zero)
  ultimately have "1 \<le> of_int (roundHalfEven (x / u)) * u" unfolding uk by linarith
  then show ?thesis using x0 by (simp add: roundToFloat_def u_def k_def Let_def)
qed

lemma floatHops_ge_one:
  assumes "0 < h" "0 \<le> b"
  shows "1 \<le> \<lfloor>floatHops b h\<rfloor>"
proof -
  have "1 \<le> roundToFloat (of_int h)" using assms by (intro roundToFloat_ge_one) simp
  moreover have "0 \<le> roundToFloat (of_int b)" using assms by (intro roundToFloat_nonneg) simp
  ultimately have "0 \<le> roundToFloat (of_int b) / roundToFloat (of_int h)" by simp
  then have "0 \<le> roundToFloat (roundToFloat (of_int b) / roundToFloat (of_int h))"
    by (rule roundToFloat_nonneg)
  then have "1 \<le> floatHops b h" unfolding floatHops_def by (intro roundToFloat_ge_one) simp
  then show ?thesis by (simp add: le_floor_iff)
qed

lemma floatHops_exact:
  assumes h: "h = 2 ^ j" and b: "0 \<le> b" and small: "h + b < 2 ^ 24"
  shows "floatHops b h = 1 + of_int b / of_int h"
proof -
  have h0: "0 < h" using h by simp
  have 1: "roundToFloat (of_int b) = of_int b" using b small h0 by (intro roundToFloat_of_int) simp
  have 2: "roundToFloat (of_int h) = of_int h" using b small h0 by (intro roundToFloat_of_int) simp
  have 3: "roundToFloat (of_int b / of_int h) = of_int b / of_int h"
    unfolding h using roundToFloat_exact [of b j] b small h0 by simp
  have "1 + of_int b / (of_int h :: real) = of_int (h + b) / 2 ^ j"
    unfolding h by (simp add: field_simps)
  moreover have "roundToFloat (of_int (h + b) / 2 ^ j) = of_int (h + b) / 2 ^ j"
    using b small h0 by (intro roundToFloat_exact) simp
  ultimately have 4: "roundToFloat (1 + of_int b / of_int h) = 1 + of_int b / of_int h" by simp
  show ?thesis unfolding floatHops_def 1 2 3 4 ..
qed



lemma readRange_Some_iff:
  "readRange xs st n = Some ys \<longleftrightarrow>
     0 \<le> st \<and> 0 \<le> n \<and> st + n \<le> int (length xs) \<and> ys = take (nat n) (drop (nat st) xs)"
  by (auto simp: readRange_def)

lemma writeRange_Some_iff:
  "writeRange xs st ys = Some zs \<longleftrightarrow>
     0 \<le> st \<and> st + int (length ys) \<le> int (length xs) \<and>
     zs = take (nat st) xs @ ys @ drop (nat st + length ys) xs"
  by (auto simp: writeRange_def)

lemma length_writeRange: "writeRange xs st ys = Some zs \<Longrightarrow> length zs = length xs"
  by (auto simp: writeRange_def split: if_splits)

lemma getChannel_Some_iff: "getChannel b ch = Some d \<longleftrightarrow> ch < length b \<and> d = b ! ch"
  by (auto simp: getChannel_def)

lemma length_chanUpd [simp]: "length (chanUpd lo n g b) = length b"
  by (simp add: chanUpd_def)

lemma nth_chanUpd:
  "ch < length b \<Longrightarrow> chanUpd lo n g b ! ch = (if lo \<le> ch \<and> ch < n then g ch (b ! ch) else b ! ch)"
  by (simp add: chanUpd_def)

lemma chanUpd_empty: "n \<le> lo \<Longrightarrow> chanUpd lo n g b = b"
  by (auto simp: chanUpd_def intro!: nth_equalityI)

lemma chanUpd_step:
  "lo < n \<Longrightarrow> lo < length b \<Longrightarrow> chanUpd (Suc lo) n g (b[lo := g lo (b ! lo)]) = chanUpd lo n g b"
  by (auto simp: chanUpd_def nth_list_update intro!: nth_equalityI)

lemma forCh_chanwise:
  assumes body: "\<And>ch b. body ch b = do { d \<leftarrow> getChannel b ch; d' \<leftarrow> g ch d; Some (b[ch := d']) }"
  shows "forCh lo n body b = Some b' \<longleftrightarrow>
         (lo < n \<longrightarrow> n \<le> length b) \<and> (\<forall>ch. lo \<le> ch \<and> ch < n \<longrightarrow> g ch (b ! ch) \<noteq> None) \<and>
         b' = chanUpd lo n (\<lambda>ch d. the (g ch d)) b"
proof (induction "n - lo" arbitrary: lo b)
  case 0
  then show ?case by (auto simp: forCh.simps [of lo n] chanUpd_empty)
next
  case (Suc k)
  then have lt: "lo < n" and k: "k = n - Suc lo" by auto
  show ?case
  proof (cases "lo < length b \<and> g lo (b ! lo) \<noteq> None")
    case False
    then have "body lo b = None" by (auto simp: body getChannel_def)
    with lt False show ?thesis by (auto simp: forCh.simps [of lo n])
  next
    case True
    then obtain d' where d': "g lo (b ! lo) = Some d'" and len: "lo < length b" by auto
    then have b1: "body lo b = Some (b[lo := d'])" by (simp add: body getChannel_def)
    have nth: "\<And>ch. Suc lo \<le> ch \<Longrightarrow> (b[lo := d']) ! ch = b ! ch" by simp
    have "forCh lo n body b = forCh (Suc lo) n body (b[lo := d'])"
      using lt b1 by (simp add: forCh.simps [of lo n])
    also have "\<dots> = Some b' \<longleftrightarrow> (Suc lo < n \<longrightarrow> n \<le> length b) \<and>
        (\<forall>ch. Suc lo \<le> ch \<and> ch < n \<longrightarrow> g ch (b ! ch) \<noteq> None) \<and>
         b' = chanUpd (Suc lo) n (\<lambda>ch d. the (g ch d)) (b[lo := d'])"
      using Suc(1) [OF k, of "b[lo := d']"] by (simp add: nth)
    also have "chanUpd (Suc lo) n (\<lambda>ch d. the (g ch d)) (b[lo := d']) = chanUpd lo n (\<lambda>ch d. the (g ch d)) b"
      using chanUpd_step [OF lt len, of "\<lambda>ch d. the (g ch d)"] d' by simp
    also have "(Suc lo < n \<longrightarrow> n \<le> length b) \<and>
        (\<forall>ch. Suc lo \<le> ch \<and> ch < n \<longrightarrow> g ch (b ! ch) \<noteq> None) \<and>
         b' = chanUpd lo n (\<lambda>ch d. the (g ch d)) b \<longleftrightarrow> 
        (lo < n \<longrightarrow> n \<le> length b) \<and> (\<forall>ch. lo \<le> ch \<and> ch < n \<longrightarrow> g ch (b ! ch) \<noteq> None) \<and>
         b' = chanUpd lo n (\<lambda>ch d. the (g ch d)) b"
    proof -
      have "(\<forall>ch. lo \<le> ch \<and> ch < n \<longrightarrow> g ch (b ! ch) \<noteq> None) \<longleftrightarrow> (\<forall>ch. Suc lo \<le> ch \<and> ch < n \<longrightarrow> g ch (b ! ch) \<noteq> None)"
      proof (intro iffI allI impI)
        fix ch assume a: "\<forall>ch. Suc lo \<le> ch \<and> ch < n \<longrightarrow> g ch (b ! ch) \<noteq> None" and c: "lo \<le> ch \<and> ch < n"
        show "g ch (b ! ch) \<noteq> None"
        proof (cases "ch = lo")
          case True then show ?thesis using d' by simp
        next
          case False then show ?thesis using a c by auto
        qed
      qed auto
      moreover have "(\<forall>ch. Suc lo \<le> ch \<and> ch < n \<longrightarrow> g ch (b ! ch) \<noteq> None) \<Longrightarrow> n \<le> length b \<or> \<not> Suc lo < n \<Longrightarrow> lo < n \<Longrightarrow> n \<le> length b"
        using len by auto
      ultimately show ?thesis using lt len by auto
    qed
    finally show ?thesis .
  qed
qed

lemma forCh_cong:
  assumes "\<And>ch s. lo \<le> ch \<Longrightarrow> ch < n \<Longrightarrow> body ch s = body' ch s"
  shows "forCh lo n body s = forCh lo n body' s"
  using assms
proof (induction "n - lo" arbitrary: lo s)
  case 0
  then show ?case by (simp add: forCh.simps [of lo n])
next
  case (Suc k)
  then have lt: "lo < n" and k: "k = n - Suc lo" by auto
  have "body lo s = body' lo s" using Suc.prems lt by simp
  moreover have "\<And>s'. forCh (Suc lo) n body s' = forCh (Suc lo) n body' s'"
    using Suc(1) [OF k] Suc.prems by simp
  ultimately show ?case by (simp add: forCh.simps [of lo n] split: option.splits)
qed

lemma ola_chan:
  assumes "0 \<le> off" "off + N \<le> int (length d)" "N \<le> int (length f)" "0 \<le> h" "h \<le> N"
  shows "do { old \<leftarrow> readRange d off (N - h);
              new \<leftarrow> readRange f 0 (N - h);
              d' \<leftarrow> writeRange d off (map2 (+) old new);
              copy d' (off + N - h) f (N - h) h }
         = Some (olaWrite (nat N) (nat h) (nat off) d f)"
proof -
  have 1: "readRange d off (N - h) = Some (take (nat (N - h)) (drop (nat off) d))"
    using assms by (simp add: readRange_def)
  have 2: "readRange f 0 (N - h) = Some (take (nat (N - h)) f)"
    using assms by (simp add: readRange_def)
  let ?m = "map2 (+) (take (nat (N - h)) (drop (nat off) d)) (take (nat (N - h)) f)"
  have lm: "length ?m = nat (N - h)" using assms by simp
  let ?d1 = "take (nat off) d @ ?m @ drop (nat off + nat (N - h)) d"
  have 3: "writeRange d off ?m = Some ?d1"
    using assms lm by (simp add: writeRange_def)
  have ld1: "length ?d1 = length d" using assms lm by simp
  have 4: "readRange f (N - h) h = Some (take (nat h) (drop (nat (N - h)) f))"
    using assms by (simp add: readRange_def)
  have t: "take (nat (off + N - h)) ?d1 = take (nat off) d @ ?m"
    using assms lm by (simp add: nat_add_distrib nat_diff_distrib)
  have dr: "drop (nat (off + N - h) + nat h) ?d1 = drop (nat off + nat N) d"
    using assms lm by (simp add: nat_add_distrib nat_diff_distrib)
  have 5: "writeRange ?d1 (off + N - h) (take (nat h) (drop (nat (N - h)) f))
           = Some (take (nat off) d @ ?m @ take (nat h) (drop (nat (N - h)) f) @ drop (nat off + nat N) d)"
    using assms ld1 unfolding writeRange_def t [symmetric]
    by (simp add: t dr del: take_append drop_append)
  show ?thesis
    unfolding 1 2 copy_def 
    using 3 4 5 assms by (simp add: olaWrite_def nat_diff_distrib)
qed

lemma ola_chan_iff:
  "do { old \<leftarrow> readRange d off (N - h);
        new \<leftarrow> readRange f 0 (N - h);
        d' \<leftarrow> writeRange d off (map2 (+) old new);
        copy d' (off + N - h) f (N - h) h } = Some r
   \<longleftrightarrow> 0 \<le> off \<and> off + N \<le> int (length d) \<and> N \<le> int (length f) \<and> 0 \<le> h \<and> h \<le> N \<and>
       r = olaWrite (nat N) (nat h) (nat off) d f"
proof
  assume "0 \<le> off \<and> off + N \<le> int (length d) \<and> N \<le> int (length f) \<and> 0 \<le> h \<and> h \<le> N \<and>
       r = olaWrite (nat N) (nat h) (nat off) d f"
  then show "do { old \<leftarrow> readRange d off (N - h);
        new \<leftarrow> readRange f 0 (N - h);
        d' \<leftarrow> writeRange d off (map2 (+) old new);
        copy d' (off + N - h) f (N - h) h } = Some r"
    using ola_chan [of off N d f h] by simp
next
  assume a: "do { old \<leftarrow> readRange d off (N - h);
        new \<leftarrow> readRange f 0 (N - h);
        d' \<leftarrow> writeRange d off (map2 (+) old new);
        copy d' (off + N - h) f (N - h) h } = Some r"
  then obtain old new d' cp where
      1: "readRange d off (N - h) = Some old" and 2: "readRange f 0 (N - h) = Some new"
      and 3: "writeRange d off (map2 (+) old new) = Some d'"
      and 4: "readRange f (N - h) h = Some cp" and 5: "writeRange d' (off + N - h) cp = Some r"
    by (auto simp: bind_eq_Some_conv copy_def)
  have ld: "length d' = length d" using 3 by (rule length_writeRange)
  have lcp: "int (length cp) = h" using 4 by (auto simp: readRange_Some_iff)
  have b: "0 \<le> off \<and> off + N \<le> int (length d) \<and> N \<le> int (length f) \<and> 0 \<le> h \<and> h \<le> N"
    using 1 2 4 5 ld lcp by (auto simp: readRange_Some_iff writeRange_Some_iff)
  with a ola_chan [of off N d f h] show "0 \<le> off \<and> off + N \<le> int (length d) \<and> N \<le> int (length f) \<and> 0 \<le> h \<and> h \<le> N \<and>
       r = olaWrite (nat N) (nat h) (nat off) d f" by simp
qed

lemma writeBack_body:
  "do { ob1 \<leftarrow> addFrom ob ch off fft ch 0 (N - h); copyFrom ob1 ch (off + N - h) fft ch (N - h) h }
   = do { d \<leftarrow> getChannel ob ch;
          d' \<leftarrow> (do { f \<leftarrow> getChannel fft ch;
                      do { old \<leftarrow> readRange d off (N - h);
                           new \<leftarrow> readRange f 0 (N - h);
                           d' \<leftarrow> writeRange d off (map2 (+) old new);
                           copy d' (off + N - h) f (N - h) h } });
          Some (ob[ch := d']) }"
  by (auto simp: addFrom_def copyFrom_def getChannel_def split: Option.bind_split)

lemma writeBackFrame_iff:
  "writeBackFrame s = Some s' \<longleftrightarrow> writeBackOK s \<and> s' = writeBackSpec s"
proof -
  let ?g = "\<lambda>ch d. do { f \<leftarrow> getChannel (fftInOutBuffer s) ch;
                      do { old \<leftarrow> readRange d (outputOffset s) (fftSize s - hopSize s);
                           new \<leftarrow> readRange f 0 (fftSize s - hopSize s);
                           d' \<leftarrow> writeRange d (outputOffset s) (map2 (+) old new);
                           copy d' (outputOffset s + fftSize s - hopSize s) f (fftSize s - hopSize s) (hopSize s) } }"
  have g: "?g ch d = Some r \<longleftrightarrow> ch < length (fftInOutBuffer s) \<and> 0 \<le> outputOffset s \<and>
             outputOffset s + fftSize s \<le> int (length d) \<and> fftSize s \<le> int (length (fftInOutBuffer s ! ch)) \<and>
             0 \<le> hopSize s \<and> hopSize s \<le> fftSize s \<and>
             r = olaWrite (fftN s) (hopN s) (nat (outputOffset s)) d (fftInOutBuffer s ! ch)" for ch d r
    by (cases "ch < length (fftInOutBuffer s)") (auto simp: getChannel_def ola_chan_iff)
  have gN: "?g ch d \<noteq> None \<longleftrightarrow> ch < length (fftInOutBuffer s) \<and> 0 \<le> outputOffset s \<and>
             outputOffset s + fftSize s \<le> int (length d) \<and> fftSize s \<le> int (length (fftInOutBuffer s ! ch)) \<and>
             0 \<le> hopSize s \<and> hopSize s \<le> fftSize s" for ch d
    using g [of ch d] by (cases "?g ch d") auto
  have the: "?g ch d \<noteq> None \<Longrightarrow> the (?g ch d) = olaWrite (fftN s) (hopN s) (nat (outputOffset s)) d (fftInOutBuffer s ! ch)" for ch d
    using g [of ch d] by (cases "?g ch d") auto
  have fc: "forCh 0 (nChOut s) (\<lambda>ch ob.
                 do { ob1 \<leftarrow> addFrom ob ch (outputOffset s) (fftInOutBuffer s) ch 0
                                 (fftSize s - hopSize s);
                      copyFrom ob1 ch (outputOffset s + fftSize s - hopSize s) (fftInOutBuffer s) ch
                                 (fftSize s - hopSize s) (hopSize s) })
               (outputBuffer s) = Some b' \<longleftrightarrow> 
         (0 < nChOut s \<longrightarrow> nChOut s \<le> length (outputBuffer s)) \<and>
         (\<forall>ch. 0 \<le> ch \<and> ch < nChOut s \<longrightarrow> ?g ch (outputBuffer s ! ch) \<noteq> None) \<and>
         b' = chanUpd 0 (nChOut s) (\<lambda>ch d. the (?g ch d)) (outputBuffer s)" for b'
    by (rule forCh_chanwise) (rule writeBack_body)
  have eq: "writeBackOK s \<Longrightarrow> chanUpd 0 (nChOut s) (\<lambda>ch d. the (?g ch d)) (outputBuffer s)
        = chanUpd 0 (nChOut s)
             (\<lambda>ch d. olaWrite (fftN s) (hopN s) (nat (outputOffset s)) d (fftInOutBuffer s ! ch))
             (outputBuffer s)"
  proof (rule nth_equalityI)
    show "length (chanUpd 0 (nChOut s) (\<lambda>ch d. the (?g ch d)) (outputBuffer s)) =
      length (chanUpd 0 (nChOut s)
             (\<lambda>ch d. olaWrite (fftN s) (hopN s) (nat (outputOffset s)) d (fftInOutBuffer s ! ch))
             (outputBuffer s))" by simp
  next
    fix i assume ok: "writeBackOK s" and "i < length (chanUpd 0 (nChOut s) (\<lambda>ch d. the (?g ch d)) (outputBuffer s))"
    then have i: "i < length (outputBuffer s)" by simp
    show "chanUpd 0 (nChOut s) (\<lambda>ch d. the (?g ch d)) (outputBuffer s) ! i =
      chanUpd 0 (nChOut s)
             (\<lambda>ch d. olaWrite (fftN s) (hopN s) (nat (outputOffset s)) d (fftInOutBuffer s ! ch))
             (outputBuffer s) ! i"
    proof (cases "i < nChOut s")
      case True
      then have "?g i (outputBuffer s ! i) \<noteq> None"
        using ok unfolding gN writeBackOK_def by simp
      from the [OF this] show ?thesis using i by (simp add: nth_chanUpd)
    next
      case False
      then show ?thesis using i by (simp add: nth_chanUpd)
    qed
  qed
  have ok_iff: "writeBackOK s \<longleftrightarrow> (0 < nChOut s \<longrightarrow> nChOut s \<le> length (outputBuffer s)) \<and>
         (\<forall>ch. 0 \<le> ch \<and> ch < nChOut s \<longrightarrow> ?g ch (outputBuffer s ! ch) \<noteq> None)"
    unfolding gN writeBackOK_def by auto
  show ?thesis
  proof
    assume "writeBackFrame s = Some s'"
    then obtain b' where b': "forCh 0 (nChOut s) (\<lambda>ch ob.
                 do { ob1 \<leftarrow> addFrom ob ch (outputOffset s) (fftInOutBuffer s) ch 0
                                 (fftSize s - hopSize s);
                      copyFrom ob1 ch (outputOffset s + fftSize s - hopSize s) (fftInOutBuffer s) ch
                                 (fftSize s - hopSize s) (hopSize s) })
               (outputBuffer s) = Some b'"
      and s': "s' = s \<lparr> outputBuffer := b', outputOffset := outputOffset s + hopSize s \<rparr>"
      unfolding writeBackFrame_def by (auto simp: bind_eq_Some_conv)
    from b' have ok: "writeBackOK s" unfolding fc ok_iff by blast
    from b' have "b' = chanUpd 0 (nChOut s) (\<lambda>ch d. the (?g ch d)) (outputBuffer s)"
      unfolding fc by blast
    with eq [OF ok] s' ok show "writeBackOK s \<and> s' = writeBackSpec s"
      by (simp add: writeBackSpec_def)
  next
    assume a: "writeBackOK s \<and> s' = writeBackSpec s"
    then have "forCh 0 (nChOut s) (\<lambda>ch ob.
                 do { ob1 \<leftarrow> addFrom ob ch (outputOffset s) (fftInOutBuffer s) ch 0
                                 (fftSize s - hopSize s);
                      copyFrom ob1 ch (outputOffset s + fftSize s - hopSize s) (fftInOutBuffer s) ch
                                 (fftSize s - hopSize s) (hopSize s) })
               (outputBuffer s) = Some (chanUpd 0 (nChOut s) (\<lambda>ch d. the (?g ch d)) (outputBuffer s))"
      unfolding fc ok_iff by blast
    with a eq show "writeBackFrame s = Some s'"
      unfolding writeBackFrame_def by (simp add: writeBackSpec_def)
  qed
qed

lemma forCh_Some:
  assumes body: "\<And>ch b. body ch b = do { d \<leftarrow> getChannel b ch; d' \<leftarrow> g ch d; Some (b[ch := d']) }"
    and len: "lo < n \<longrightarrow> n \<le> length b"
    and g: "\<And>ch. lo \<le> ch \<Longrightarrow> ch < n \<Longrightarrow> g ch (b ! ch) = Some (f ch (b ! ch))"
  shows "forCh lo n body b = Some (chanUpd lo n f b)"
proof -
  have "chanUpd lo n (\<lambda>ch d. the (g ch d)) b = chanUpd lo n f b"
    by (rule nth_equalityI) (auto simp: nth_chanUpd g)
  then show ?thesis
    unfolding forCh_chanwise [of body g, OF body] using len g by auto
qed

lemma multiply_Some:
  assumes "0 \<le> d" "0 \<le> s1" "0 \<le> s2" "0 \<le> num" "d + num \<le> int (length dest)"
    "s1 + num \<le> int (length src1)" "s2 + num \<le> int (length src2)"
  shows "multiply dest d src1 s1 src2 s2 num =
     Some (take (nat d) dest @ map2 (*) (take (nat num) (drop (nat s1) src1)) (take (nat num) (drop (nat s2) src2))
           @ drop (nat d + nat num) dest)"
  using assms by (simp add: multiply_def readRange_def writeRange_def)

lemma copy_Some:
  assumes "0 \<le> d" "0 \<le> s" "0 \<le> num" "d + num \<le> int (length dest)" "s + num \<le> int (length src)"
  shows "copy dest d src s num =
     Some (take (nat d) dest @ take (nat num) (drop (nat s) src) @ drop (nat d + nat num) dest)"
  using assms by (simp add: copy_def readRange_def writeRange_def)

lemma windowed_split:
  assumes "length w = N" "length a = c" "c \<le> N" "N - c \<le> length i"
  shows "map2 (*) a (take c w) @ map2 (*) (take (N - c) i) (take (N - c) (drop c w)) @ drop N d
         = windowed N w (a @ i) d"
proof -
  have "map2 (*) (take N (a @ i)) w = map2 (*) (a @ take (N - c) i) (take c w @ drop c w)"
    using assms by simp
  also have "\<dots> = map2 (*) a (take c w) @ map2 (*) (take (N - c) i) (drop c w)"
    using assms by (subst zip_append) simp_all
  also have "map2 (*) (take (N - c) i) (drop c w) = map2 (*) (take (N - c) i) (take (N - c) (drop c w))"
    using assms by simp
  finally show ?thesis by (simp add: windowed_def)
qed

lemma fillFromLeftOvers_Some:
  assumes len: "0 < ci \<longrightarrow> ci \<le> length (fftInOutBuffer s)"
    and ci: "ci \<le> length (notYetUsedAudioData s)" "ci \<le> length (channels inp)"
    and w: "int (length (window s)) = fftSize s"
    and c: "0 < notYetUsedAudioDataCount s" "notYetUsedAudioDataCount s \<le> fftSize s" "0 \<le> off"
    and nyu: "\<And>ch. ch < ci \<Longrightarrow> off + notYetUsedAudioDataCount s \<le> int (length (notYetUsedAudioData s ! ch))"
    and inp: "\<And>ch. ch < ci \<Longrightarrow> fftSize s - notYetUsedAudioDataCount s \<le> int (length (channels inp ! ch))"
    and fft: "\<And>ch. ch < ci \<Longrightarrow> fftSize s \<le> int (length (fftInOutBuffer s ! ch))"
    and z: "\<And>ch. ch < ci \<Longrightarrow> z ! ch = take (nat (notYetUsedAudioDataCount s)) (drop (nat off) (notYetUsedAudioData s ! ch))
                                 @ channels inp ! ch"
  shows "fillFromLeftOvers s inp ci off = Some (loadFrames s ci z)"
  unfolding fillFromLeftOvers_def loadFrames_def
proof (rule forCh_Some [where g = "\<lambda>ch d. do { 
             a \<leftarrow> getChannel (notYetUsedAudioData s) ch;
             d1 \<leftarrow> multiply d 0 a off (window s) 0 (notYetUsedAudioDataCount s);
             i \<leftarrow> getChannel (channels inp) ch;
             multiply d1 (notYetUsedAudioDataCount s) i 0 (window s)
                     (notYetUsedAudioDataCount s) (fftSize s - notYetUsedAudioDataCount s) }"])
  show "0 < ci \<longrightarrow> ci \<le> length (fftInOutBuffer s)" by (rule len)
next
  fix ch b
  show "do { d \<leftarrow> getChannel b ch;
             a \<leftarrow> getChannel (notYetUsedAudioData s) ch;
             d1 \<leftarrow> multiply d 0 a off (window s) 0 (notYetUsedAudioDataCount s);
             i \<leftarrow> getChannel (channels inp) ch;
             d2 \<leftarrow> multiply d1 (notYetUsedAudioDataCount s) i 0 (window s)
                     (notYetUsedAudioDataCount s) (fftSize s - notYetUsedAudioDataCount s);
             Some (b[ch := d2]) } =
        do { d \<leftarrow> getChannel b ch;
             d' \<leftarrow> do { a \<leftarrow> getChannel (notYetUsedAudioData s) ch;
             d1 \<leftarrow> multiply d 0 a off (window s) 0 (notYetUsedAudioDataCount s);
             i \<leftarrow> getChannel (channels inp) ch;
             multiply d1 (notYetUsedAudioDataCount s) i 0 (window s)
                     (notYetUsedAudioDataCount s) (fftSize s - notYetUsedAudioDataCount s) };
             Some (b[ch := d']) }"
    by simp
next
  fix ch assume "0 \<le> ch" and ch: "ch < ci"
  let ?c = "notYetUsedAudioDataCount s" and ?d = "fftInOutBuffer s ! ch"
  let ?a = "notYetUsedAudioData s ! ch" and ?i = "channels inp ! ch" and ?w = "window s"
  let ?d1 = "take (nat 0) ?d @ map2 (*) (take (nat ?c) (drop (nat off) ?a)) (take (nat ?c) (drop (nat 0) ?w))
           @ drop (nat 0 + nat ?c) ?d"
  have 1: "multiply ?d 0 ?a off ?w 0 ?c = Some ?d1"
    using c w nyu [OF ch] fft [OF ch] by (intro multiply_Some) auto
  have l1: "length ?d1 = length ?d"
    using c w nyu [OF ch] fft [OF ch] by auto
  have 2: "multiply ?d1 ?c ?i 0 ?w ?c (fftSize s - ?c) = 
      Some (take (nat ?c) ?d1 @ map2 (*) (take (nat (fftSize s - ?c)) (drop (nat 0) ?i)) (take (nat (fftSize s - ?c)) (drop (nat ?c) ?w))
           @ drop (nat ?c + nat (fftSize s - ?c)) ?d1)"
    using c w inp [OF ch] fft [OF ch] l1 by (intro multiply_Some) auto
  have 3: "take (nat ?c) ?d1 @ map2 (*) (take (nat (fftSize s - ?c)) (drop (nat 0) ?i)) (take (nat (fftSize s - ?c)) (drop (nat ?c) ?w))
           @ drop (nat ?c + nat (fftSize s - ?c)) ?d1
      = map2 (*) (take (nat ?c) (drop (nat off) ?a)) (take (nat ?c) ?w) 
        @ map2 (*) (take (fftN s - nat ?c) ?i) (take (fftN s - nat ?c) (drop (nat ?c) ?w)) @ drop (fftN s) ?d"
    using c w nyu [OF ch] fft [OF ch] by (simp add: nat_diff_distrib)
  have 4: "\<dots> = windowed (fftN s) ?w (take (nat ?c) (drop (nat off) ?a) @ ?i) ?d"
    using c w nyu [OF ch] inp [OF ch] by (intro windowed_split) auto
  show "do { a \<leftarrow> getChannel (notYetUsedAudioData s) ch;
             d1 \<leftarrow> multiply ?d 0 a off (window s) 0 (notYetUsedAudioDataCount s);
             i \<leftarrow> getChannel (channels inp) ch;
             multiply d1 (notYetUsedAudioDataCount s) i 0 (window s)
                     (notYetUsedAudioDataCount s) (fftSize s - notYetUsedAudioDataCount s) }
       = Some (windowed (fftN s) (window s) (z ! ch) ?d)"
    using ch ci 1 2 3 4 z [OF ch] by (simp add: getChannel_def del: nat_0 drop_0 take_0 append_Nil)
qed

lemma fillFromInput_Some:
  assumes len: "0 < ci \<longrightarrow> ci \<le> length (fftInOutBuffer s)"
    and ci: "ci \<le> length (channels inp)"
    and w: "int (length (window s)) = fftSize s"
    and c: "0 \<le> fftSize s" "0 \<le> dataOffset"
    and inp: "\<And>ch. ch < ci \<Longrightarrow> dataOffset + fftSize s \<le> int (length (channels inp ! ch))"
    and fft: "\<And>ch. ch < ci \<Longrightarrow> fftSize s \<le> int (length (fftInOutBuffer s ! ch))"
    and z: "\<And>ch. ch < ci \<Longrightarrow> z ! ch = drop (nat dataOffset) (channels inp ! ch)"
  shows "fillFromInput s inp ci dataOffset = Some (loadFrames s ci z)"
  unfolding fillFromInput_def loadFrames_def
proof (rule forCh_Some [where g = "\<lambda>ch d. do { 
             i \<leftarrow> getChannel (channels inp) ch;
             multiply d 0 i dataOffset (window s) 0 (fftSize s) }"])
  show "0 < ci \<longrightarrow> ci \<le> length (fftInOutBuffer s)" by (rule len)
next
  fix ch b
  show "do { d \<leftarrow> getChannel b ch;
             i \<leftarrow> getChannel (channels inp) ch;
             d1 \<leftarrow> multiply d 0 i dataOffset (window s) 0 (fftSize s);
             Some (b[ch := d1]) } =
        do { d \<leftarrow> getChannel b ch;
             d' \<leftarrow> do { i \<leftarrow> getChannel (channels inp) ch;
                        multiply d 0 i dataOffset (window s) 0 (fftSize s) };
             Some (b[ch := d']) }"
    by simp
next
  fix ch assume "0 \<le> ch" and ch: "ch < ci"
  let ?d = "fftInOutBuffer s ! ch" and ?i = "channels inp ! ch" and ?w = "window s"
  have 1: "multiply ?d 0 ?i dataOffset ?w 0 (fftSize s) = 
     Some (take (nat 0) ?d @ map2 (*) (take (fftN s) (drop (nat dataOffset) ?i)) (take (fftN s) (drop (nat 0) ?w))
           @ drop (nat 0 + fftN s) ?d)"
    using c w inp [OF ch] fft [OF ch] by (intro multiply_Some) auto
  show "do { i \<leftarrow> getChannel (channels inp) ch;
             multiply ?d 0 i dataOffset (window s) 0 (fftSize s) }
       = Some (windowed (fftN s) (window s) (z ! ch) ?d)"
    using ch ci 1 z [OF ch] w by (simp add: getChannel_def windowed_def)
qed

lemma outputBufferSize_ge:
  assumes "0 < h" "1 \<le> B"
  shows "N + B - 1 \<le> outputBufferSize N h B"
proof -
  have "1 \<le> \<lfloor>floatHops (B - 1) h\<rfloor>" using assms by (intro floatHops_ge_one) simp_all
  then have "1 * h \<le> \<lfloor>floatHops (B - 1) h\<rfloor> * h"
    using assms by (intro mult_right_mono) auto
  then show ?thesis by (simp add: outputBufferSize_def)
qed

lemma frameStep_fields [simp]:
  "window (frameStep ci m z s) = window s"
  "fftSize (frameStep ci m z s) = fftSize s"
  "hopSize (frameStep ci m z s) = hopSize s"
  "nChIn (frameStep ci m z s) = nChIn s"
  "nChOut (frameStep ci m z s) = nChOut s"
  "notYetUsedAudioData (frameStep ci m z s) = notYetUsedAudioData s"
  "notYetUsedAudioDataCount (frameStep ci m z s) = notYetUsedAudioDataCount s"
  "processFrameInBuffer (frameStep ci m z s) = processFrameInBuffer s"
  "outputBufferNumSamples (frameStep ci m z s) = outputBufferNumSamples s"
  "outputOffset (frameStep ci m z s) = outputOffset s + hopSize s"
  by (simp_all add: frameStep_def writeBackSpec_def callProcessFrameInBuffer_def)

lemma frameStep_count_update:
  "frameStep ci m z (s \<lparr> notYetUsedAudioDataCount := x \<rparr>)
   = (frameStep ci m z s) \<lparr> notYetUsedAudioDataCount := x \<rparr>"
  by (simp add: frameStep_def writeBackSpec_def callProcessFrameInBuffer_def loadFrames_def)

lemma frames_fields [simp]:
  "window (frames ci m n z s) = window s"
  "fftSize (frames ci m n z s) = fftSize s"
  "hopSize (frames ci m n z s) = hopSize s"
  "nChIn (frames ci m n z s) = nChIn s"
  "nChOut (frames ci m n z s) = nChOut s"
  "notYetUsedAudioData (frames ci m n z s) = notYetUsedAudioData s"
  "notYetUsedAudioDataCount (frames ci m n z s) = notYetUsedAudioDataCount s"
  "processFrameInBuffer (frames ci m n z s) = processFrameInBuffer s"
  "outputBufferNumSamples (frames ci m n z s) = outputBufferNumSamples s"
  "outputOffset (frames ci m n z s) = outputOffset s + int n * hopSize s"
  by (induction n arbitrary: z s; simp add: algebra_simps)+

lemma frames_count_update:
  "frames ci m n z (s \<lparr> notYetUsedAudioDataCount := x \<rparr>)
   = (frames ci m n z s) \<lparr> notYetUsedAudioDataCount := x \<rparr>"
  by (induction n arbitrary: z s) (simp_all add: frameStep_count_update)

lemma frames_add:
  "frames ci m (n1 + n2) z s = frames ci m n2 (\<lambda>ch. drop (n1 * hopN s) (z ch)) (frames ci m n1 z s)"
  by (induction n1 arbitrary: z s) (simp_all add: add.commute)

lemma length_windowed:
  "length w = N \<Longrightarrow> N \<le> length z \<Longrightarrow> N \<le> length d \<Longrightarrow> length (windowed N w z d) = length d"
  by (simp add: windowed_def)

lemma length_olaWrite:
  "off + N \<le> length d \<Longrightarrow> N \<le> length f \<Longrightarrow> h \<le> N \<Longrightarrow> length (olaWrite N h off d f) = length d"
  by (simp add: olaWrite_def)

lemma shapeOK_frameStep:
  assumes ok: "shapeOK B s" and io: "nChOut s \<le> nChIn s" and ci: "ci \<le> nChIn s"
    and off: "0 \<le> outputOffset s" "outputOffset s + fftSize s \<le> outputBufferSize (fftSize s) (hopSize s) B"
    and z: "\<And>ch. ch < ci \<Longrightarrow> fftSize s \<le> int (length (z ch))"
  shows "shapeOK B (frameStep ci m z s)"
    and "writeBackFrame (callProcessFrameInBuffer m (s \<lparr> fftInOutBuffer := loadFrames s ci (map z [0..<ci]) \<rparr>))
         = Some (frameStep ci m z s)"
proof -
  let ?lf = "loadFrames s ci (map z [0..<ci])"
  let ?s1 = "callProcessFrameInBuffer m (s \<lparr> fftInOutBuffer := ?lf \<rparr>)"
  have mx: "max (nChIn s) (nChOut s) = nChIn s" using io by simp
  have llf: "length ?lf = nChIn s" using ok mx by (simp add: loadFrames_def shapeOK_def)
  have clf: "int (length (?lf ! ch)) = 2 * fftSize s" if "ch < nChIn s" for ch
  proof (cases "ch < ci")
    case True
    have "length (windowed (fftN s) (window s) (z ch) (fftInOutBuffer s ! ch)) = length (fftInOutBuffer s ! ch)"
      using ok z [OF True] that mx by (intro length_windowed) (auto simp: shapeOK_def)
    then show ?thesis using ok that mx True by (simp add: loadFrames_def nth_chanUpd shapeOK_def)
  next
    case False
    then show ?thesis using ok that mx by (simp add: loadFrames_def nth_chanUpd shapeOK_def)
  qed
  have pf: "map length (fftInOutBuffer ?s1) = map length ?lf"
    using ok by (simp add: callProcessFrameInBuffer_def shapeOK_def)
  have l1: "length (fftInOutBuffer ?s1) = nChIn s"
    using pf llf by (metis length_map)
  have c1: "int (length (fftInOutBuffer ?s1 ! ch)) = 2 * fftSize s" if "ch < nChIn s" for ch
  proof -
    have "length (fftInOutBuffer ?s1 ! ch) = map length (fftInOutBuffer ?s1) ! ch"
      using that l1 by simp
    also have "\<dots> = length (?lf ! ch)" unfolding pf using that llf by simp
    finally show ?thesis using clf [OF that] by simp
  qed
  have other [simp]: "outputBuffer ?s1 = outputBuffer s" "outputOffset ?s1 = outputOffset s"
    "fftSize ?s1 = fftSize s" "hopSize ?s1 = hopSize s" "nChOut ?s1 = nChOut s" "nChIn ?s1 = nChIn s"
    "window ?s1 = window s" "notYetUsedAudioData ?s1 = notYetUsedAudioData s"
    "processFrameInBuffer ?s1 = processFrameInBuffer s"
    by (simp_all add: callProcessFrameInBuffer_def)
  have wb: "writeBackOK ?s1"
    unfolding writeBackOK_def using ok io off l1 c1 by (auto simp: shapeOK_def)
  then show "writeBackFrame ?s1 = Some (frameStep ci m z s)"
    by (simp add: writeBackFrame_iff frameStep_def)
  have lo: "int (length (outputBuffer (writeBackSpec ?s1) ! ch)) = outputBufferSize (fftSize s) (hopSize s) B"
    if "ch < nChIn s" for ch
  proof (cases "ch < nChOut s")
    case True
    have "length (olaWrite (fftN s) (hopN s) (nat (outputOffset s)) (outputBuffer s ! ch) (fftInOutBuffer ?s1 ! ch))
          = length (outputBuffer s ! ch)"
      using ok off that c1 [OF that] by (intro length_olaWrite) (auto simp: shapeOK_def)
    then show ?thesis using ok that True by (simp add: writeBackSpec_def nth_chanUpd shapeOK_def)
  next
    case False
    then show ?thesis using ok that by (simp add: writeBackSpec_def nth_chanUpd shapeOK_def)
  qed
  show "shapeOK B (frameStep ci m z s)"
    unfolding shapeOK_def frameStep_fields
    using ok lo l1 c1 mx
    by (auto simp: shapeOK_def frameStep_def writeBackSpec_def)
qed

lemma shapeOK_count_update [simp]:
  "shapeOK B (s \<lparr> notYetUsedAudioDataCount := x \<rparr>) = shapeOK B s"
  by (simp add: shapeOK_def)

lemma whileLeftOvers_Some:
  assumes ok: "shapeOK B s" and io: "nChOut s \<le> nChIn s"
    and ci: "ci \<le> nChIn s" "ci \<le> length (channels inp)"
    and L: "numSamples inp \<le> B"
    and inp: "\<And>ch. ch < ci \<Longrightarrow> int (length (channels inp ! ch)) = numSamples inp"
    and c: "notYetUsedAudioDataCount s = c" "0 \<le> off" "off + c \<le> fftSize s - 1"
           "outputOffset s = fftSize s - 1 - c"
    and z: "0 < c \<Longrightarrow> \<forall>ch<ci. z ch = take (nat c) (drop (nat off) (notYetUsedAudioData s ! ch))
                                         @ channels inp ! ch"
  shows "\<exists>n. whileLeftOvers inp ci m s off
              = Some ((frames ci m n z s) \<lparr> notYetUsedAudioDataCount := c - int n * hopSize s \<rparr>,
                      off + int n * hopSize s)
       \<and> \<not> (0 < c - int n * hopSize s \<and> fftSize s \<le> c - int n * hopSize s + numSamples inp)
       \<and> (0 < n \<longrightarrow> 0 < c - (int n - 1) * hopSize s
                   \<and> fftSize s \<le> c - (int n - 1) * hopSize s + numSamples inp)
       \<and> shapeOK B (frames ci m n z s)"
  using assms
proof (induction "nat c" arbitrary: s off c z rule: less_induct)
  case less
  note ok = less.prems(1) and io = less.prems(2) and ci = less.prems(3,4) and L = less.prems(5)
    and inp = less.prems(6) and c = less.prems(7-10) and z = less.prems(11)
  let ?N = "fftSize s" and ?h = "hopSize s" and ?L = "numSamples inp"
  have h: "0 < ?h" "?h \<le> ?N" using ok by (auto simp: shapeOK_def)
  show ?case
  proof (cases "0 < c \<and> ?N \<le> c + ?L")
    case False
    then have "whileLeftOvers inp ci m s off = Some (s, off)"
      using c(1) by (subst whileLeftOvers.simps) auto
    moreover have "s \<lparr> notYetUsedAudioDataCount := c \<rparr> = s" using c(1) by simp
    ultimately show ?thesis using False ok by (intro exI [of _ 0]) simp
  next
    case True
    then have cpos: "0 < c" and fit: "?N \<le> c + ?L" by auto
    have zz: "\<And>ch. ch < ci \<Longrightarrow> z ch = take (nat c) (drop (nat off) (notYetUsedAudioData s ! ch))
                                         @ channels inp ! ch"
      using z [OF cpos] by simp
    have lnyu: "\<And>ch. ch < ci \<Longrightarrow> int (length (notYetUsedAudioData s ! ch)) = ?N - 1"
      using ok ci by (auto simp: shapeOK_def)
    have ltk: "length (take (nat c) (drop (nat off) (notYetUsedAudioData s ! ch))) = nat c" if "ch < ci" for ch
    proof -
      have "nat off + nat c \<le> length (notYetUsedAudioData s ! ch)"
        using lnyu [OF that] c cpos by linarith
      then show ?thesis by simp
    qed
    have lz: "\<And>ch. ch < ci \<Longrightarrow> int (length (z ch)) = c + ?L"
      using zz ltk inp cpos by simp
    have fill: "fillFromLeftOvers s inp ci off = Some (loadFrames s ci (map z [0..<ci]))"
    proof (rule fillFromLeftOvers_Some)
      show "0 < ci \<longrightarrow> ci \<le> length (fftInOutBuffer s)" using ok ci by (auto simp: shapeOK_def)
      show "ci \<le> length (notYetUsedAudioData s)" using ok ci by (auto simp: shapeOK_def)
      show "ci \<le> length (channels inp)" by (rule ci)
      show "int (length (window s)) = ?N" using ok by (auto simp: shapeOK_def)
      show "0 < notYetUsedAudioDataCount s" using c cpos by simp
      show "notYetUsedAudioDataCount s \<le> ?N" using c by simp
      show "0 \<le> off" by (rule c)
      show "off + notYetUsedAudioDataCount s \<le> int (length (notYetUsedAudioData s ! ch))" if "ch < ci" for ch
        using lnyu [OF that] c by simp
      show "?N - notYetUsedAudioDataCount s \<le> int (length (channels inp ! ch))" if "ch < ci" for ch
        using inp [OF that] c fit by simp
      show "?N \<le> int (length (fftInOutBuffer s ! ch))" if "ch < ci" for ch
        using ok ci that h by (auto simp: shapeOK_def)
      show "map z [0..<ci] ! ch = take (nat (notYetUsedAudioDataCount s)) (drop (nat off) (notYetUsedAudioData s ! ch))
                                 @ channels inp ! ch" if "ch < ci" for ch
        using zz [OF that] that c by simp
    qed
    have cap: "?N + B - 1 \<le> outputBufferSize ?N ?h B"
      using ok by (intro outputBufferSize_ge) (auto simp: shapeOK_def)
    have fs: "shapeOK B (frameStep ci m z s)"
      "writeBackFrame (callProcessFrameInBuffer m (s \<lparr> fftInOutBuffer := loadFrames s ci (map z [0..<ci]) \<rparr>))
         = Some (frameStep ci m z s)"
      using c cpos fit L cap lz
      by (intro shapeOK_frameStep [OF ok io ci(1)]; simp)+
    let ?s1 = "(frameStep ci m z s) \<lparr> notYetUsedAudioDataCount := c - ?h \<rparr>"
    let ?z1 = "\<lambda>ch. drop (hopN s) (z ch)"
    have step: "whileLeftOvers inp ci m s off = whileLeftOvers inp ci m ?s1 (off + ?h)"
      using True c(1) fill fs(2) by (subst whileLeftOvers.simps) simp
    have "\<exists>n. whileLeftOvers inp ci m ?s1 (off + ?h)
              = Some ((frames ci m n ?z1 ?s1) \<lparr> notYetUsedAudioDataCount := (c - ?h) - int n * hopSize ?s1 \<rparr>,
                      (off + ?h) + int n * hopSize ?s1)
       \<and> \<not> (0 < (c - ?h) - int n * hopSize ?s1 \<and> fftSize ?s1 \<le> (c - ?h) - int n * hopSize ?s1 + numSamples inp)
       \<and> (0 < n \<longrightarrow> 0 < (c - ?h) - (int n - 1) * hopSize ?s1
                   \<and> fftSize ?s1 \<le> (c - ?h) - (int n - 1) * hopSize ?s1 + numSamples inp)
       \<and> shapeOK B (frames ci m n ?z1 ?s1)"
    proof (rule less.hyps)
      show "nat (c - ?h) < nat c" using cpos h by simp
      show "shapeOK B ?s1" using fs(1) by simp
      show "nChOut ?s1 \<le> nChIn ?s1" using io by simp
      show "ci \<le> nChIn ?s1" using ci by simp
      show "ci \<le> length (channels inp)" by (rule ci)
      show "?L \<le> B" by (rule L)
      show "\<And>ch. ch < ci \<Longrightarrow> int (length (channels inp ! ch)) = ?L" by (rule inp)
      show "notYetUsedAudioDataCount ?s1 = c - ?h" by simp
      show "0 \<le> off + ?h" using c h by simp
      show "off + ?h + (c - ?h) \<le> fftSize ?s1 - 1" using c by simp
      show "outputOffset ?s1 = fftSize ?s1 - 1 - (c - ?h)" using c by simp
      show "\<forall>ch<ci. drop (hopN s) (z ch) = take (nat (c - ?h)) (drop (nat (off + ?h)) (notYetUsedAudioData ?s1 ! ch))
                                         @ channels inp ! ch" if "0 < c - ?h"
      proof (intro allI impI)
        fix ch assume ch: "ch < ci"
        have "hopN s \<le> length (take (nat c) (drop (nat off) (notYetUsedAudioData s ! ch)))"
          unfolding ltk [OF ch] using that h by simp
        then have "drop (hopN s) (z ch) = drop (hopN s) (take (nat c) (drop (nat off) (notYetUsedAudioData s ! ch))) @ channels inp ! ch"
          unfolding zz [OF ch] by simp
        also have "drop (hopN s) (take (nat c) (drop (nat off) (notYetUsedAudioData s ! ch)))
             = take (nat (c - ?h)) (drop (nat (off + ?h)) (notYetUsedAudioData s ! ch))"
          using c h that by (simp add: drop_take nat_diff_distrib nat_add_distrib add.commute)
        finally show "drop (hopN s) (z ch) = take (nat (c - ?h)) (drop (nat (off + ?h)) (notYetUsedAudioData ?s1 ! ch))
                                         @ channels inp ! ch" by simp
      qed
    qed
    then obtain n where n: "whileLeftOvers inp ci m ?s1 (off + ?h)
              = Some ((frames ci m n ?z1 ?s1) \<lparr> notYetUsedAudioDataCount := (c - ?h) - int n * ?h \<rparr>,
                      (off + ?h) + int n * ?h)"
       and n2: "\<not> (0 < (c - ?h) - int n * ?h \<and> ?N \<le> (c - ?h) - int n * ?h + ?L)"
       and n3: "0 < n \<longrightarrow> 0 < (c - ?h) - (int n - 1) * ?h \<and> ?N \<le> (c - ?h) - (int n - 1) * ?h + ?L"
       and n4: "shapeOK B (frames ci m n ?z1 ?s1)"
      by auto
    have fr: "(frames ci m n ?z1 ?s1) \<lparr> notYetUsedAudioDataCount := (c - ?h) - int n * ?h \<rparr>
           = (frames ci m (Suc n) z s) \<lparr> notYetUsedAudioDataCount := c - int (Suc n) * ?h \<rparr>"
      by (simp add: frames_count_update algebra_simps)
    have ar: "(off + ?h) + int n * ?h = off + int (Suc n) * ?h" "(c - ?h) - int n * ?h = c - int (Suc n) * ?h"
      "(c - ?h) - (int n - 1) * ?h = c - (int (Suc n) - 1) * ?h"
      by (simp_all add: algebra_simps)
    show ?thesis
    proof (intro exI [of _ "Suc n"] conjI)
      show "whileLeftOvers inp ci m s off
              = Some ((frames ci m (Suc n) z s) \<lparr> notYetUsedAudioDataCount := c - int (Suc n) * ?h \<rparr>,
                      off + int (Suc n) * ?h)"
        unfolding step n by (simp only: fr ar(1))
      show "\<not> (0 < c - int (Suc n) * ?h \<and> ?N \<le> c - int (Suc n) * ?h + ?L)"
        using n2 unfolding ar .
      show "0 < Suc n \<longrightarrow> 0 < c - (int (Suc n) - 1) * ?h \<and> ?N \<le> c - (int (Suc n) - 1) * ?h + ?L"
      proof (cases "n = 0")
        case True then show ?thesis using cpos fit by simp
      next
        case False then show ?thesis using n3 unfolding ar by simp
      qed
      show "shapeOK B (frames ci m (Suc n) z s)"
        using n4 by (simp add: frames_count_update)
    qed
  qed
qed

lemma whileInput_Some:
  assumes ok: "shapeOK B s" and io: "nChOut s \<le> nChIn s"
    and ci: "ci \<le> nChIn s" "ci \<le> length (channels inp)"
    and L: "numSamples inp \<le> B"
    and inp: "\<And>ch. ch < ci \<Longrightarrow> int (length (channels inp ! ch)) = numSamples inp"
    and d: "0 \<le> d" "outputOffset s = fftSize s - 1 + d"
    and z: "\<forall>ch<ci. z ch = drop (nat d) (channels inp ! ch)"
  shows "\<exists>n. whileInput inp ci m s d = Some (frames ci m n z s, d + int n * hopSize s)
       \<and> numSamples inp - (d + int n * hopSize s) < fftSize s
       \<and> (0 < n \<longrightarrow> fftSize s \<le> numSamples inp - (d + (int n - 1) * hopSize s))
       \<and> shapeOK B (frames ci m n z s)"
  using assms
proof (induction "nat (numSamples inp - d)" arbitrary: s d z rule: less_induct)
  case less
  note ok = less.prems(1) and io = less.prems(2) and ci = less.prems(3,4) and L = less.prems(5)
    and inp = less.prems(6) and d = less.prems(7,8) and z = less.prems(9)
  let ?N = "fftSize s" and ?h = "hopSize s" and ?L = "numSamples inp"
  have h: "0 < ?h" "?h \<le> ?N" using ok by (auto simp: shapeOK_def)
  show ?case
  proof (cases "?N \<le> ?L - d")
    case False
    then have "whileInput inp ci m s d = Some (s, d)"
      by (subst whileInput.simps) auto
    then show ?thesis using False ok by (intro exI [of _ 0]) simp
  next
    case True
    have zz: "\<And>ch. ch < ci \<Longrightarrow> z ch = drop (nat d) (channels inp ! ch)"
      using z by simp
    have lz: "int (length (z ch)) = ?L - d" if "ch < ci" for ch
    proof -
      have "nat d \<le> length (channels inp ! ch)" using inp [OF that] d True h by linarith
      then show ?thesis using zz [OF that] inp [OF that] by (simp add: of_nat_diff d)
    qed
    have fill: "fillFromInput s inp ci d = Some (loadFrames s ci (map z [0..<ci]))"
    proof (rule fillFromInput_Some)
      show "0 < ci \<longrightarrow> ci \<le> length (fftInOutBuffer s)" using ok ci by (auto simp: shapeOK_def)
      show "ci \<le> length (channels inp)" by (rule ci)
      show "int (length (window s)) = ?N" using ok by (auto simp: shapeOK_def)
      show "0 \<le> ?N" using h by simp
      show "0 \<le> d" by (rule d)
      show "d + ?N \<le> int (length (channels inp ! ch))" if "ch < ci" for ch
        using inp [OF that] True by simp
      show "?N \<le> int (length (fftInOutBuffer s ! ch))" if "ch < ci" for ch
        using ok ci that h by (auto simp: shapeOK_def)
      show "map z [0..<ci] ! ch = drop (nat d) (channels inp ! ch)" if "ch < ci" for ch
        using zz [OF that] that by simp
    qed
    have cap: "?N + B - 1 \<le> outputBufferSize ?N ?h B"
      using ok by (intro outputBufferSize_ge) (auto simp: shapeOK_def)
    have fs: "shapeOK B (frameStep ci m z s)"
      "writeBackFrame (callProcessFrameInBuffer m (s \<lparr> fftInOutBuffer := loadFrames s ci (map z [0..<ci]) \<rparr>))
         = Some (frameStep ci m z s)"
      using d True L cap lz h
      by (intro shapeOK_frameStep [OF ok io ci(1)]; simp)+
    let ?s1 = "frameStep ci m z s"
    let ?z1 = "\<lambda>ch. drop (hopN s) (z ch)"
    have step: "whileInput inp ci m s d = whileInput inp ci m ?s1 (d + ?h)"
      using True fill fs(2) by (subst whileInput.simps) simp
    have "\<exists>n. whileInput inp ci m ?s1 (d + ?h) = Some (frames ci m n ?z1 ?s1, (d + ?h) + int n * hopSize ?s1)
       \<and> numSamples inp - ((d + ?h) + int n * hopSize ?s1) < fftSize ?s1
       \<and> (0 < n \<longrightarrow> fftSize ?s1 \<le> numSamples inp - ((d + ?h) + (int n - 1) * hopSize ?s1))
       \<and> shapeOK B (frames ci m n ?z1 ?s1)"
    proof (rule less.hyps)
      show "nat (?L - (d + ?h)) < nat (?L - d)" using True h by simp
      show "shapeOK B ?s1" using fs(1) by simp
      show "nChOut ?s1 \<le> nChIn ?s1" using io by simp
      show "ci \<le> nChIn ?s1" using ci by simp
      show "ci \<le> length (channels inp)" by (rule ci)
      show "?L \<le> B" by (rule L)
      show "\<And>ch. ch < ci \<Longrightarrow> int (length (channels inp ! ch)) = ?L" by (rule inp)
      show "0 \<le> d + ?h" using d h by simp
      show "outputOffset ?s1 = fftSize ?s1 - 1 + (d + ?h)" using d by simp
      show "\<forall>ch<ci. drop (hopN s) (z ch) = drop (nat (d + ?h)) (channels inp ! ch)"
        using zz d h by (simp add: nat_add_distrib add.commute)
    qed
    then obtain n where n: "whileInput inp ci m ?s1 (d + ?h) = Some (frames ci m n ?z1 ?s1, (d + ?h) + int n * ?h)"
       and n2: "?L - ((d + ?h) + int n * ?h) < ?N"
       and n3: "0 < n \<longrightarrow> ?N \<le> ?L - ((d + ?h) + (int n - 1) * ?h)"
       and n4: "shapeOK B (frames ci m n ?z1 ?s1)"
      by auto
    have ar: "(d + ?h) + int n * ?h = d + int (Suc n) * ?h"
      "(d + ?h) + (int n - 1) * ?h = d + (int (Suc n) - 1) * ?h"
      by (simp_all add: algebra_simps)
    show ?thesis
    proof (intro exI [of _ "Suc n"] conjI)
      show "whileInput inp ci m s d = Some (frames ci m (Suc n) z s, d + int (Suc n) * ?h)"
        unfolding step n by (simp only: ar(1) frames.simps)
      show "?L - (d + int (Suc n) * ?h) < ?N"
        using n2 unfolding ar .
      show "0 < Suc n \<longrightarrow> ?N \<le> ?L - (d + (int (Suc n) - 1) * ?h)"
      proof (cases "n = 0")
        case True then show ?thesis using \<open>?N \<le> ?L - d\<close> by simp
      next
        case False then show ?thesis using n3 unfolding ar by simp
      qed
      show "shapeOK B (frames ci m (Suc n) z s)"
        using n4 by simp
    qed
  qed
qed

lemma forCh_pair_Some:
  assumes body: "\<And>ch a b. body ch (a, b) =
        do { x \<leftarrow> getChannel a ch; y \<leftarrow> getChannel b ch; x' \<leftarrow> g1 ch x y; y' \<leftarrow> g2 ch y;
             Some (a[ch := x'], b[ch := y']) }"
    and len: "lo < n \<longrightarrow> n \<le> length a \<and> n \<le> length b"
    and g1: "\<And>ch. lo \<le> ch \<Longrightarrow> ch < n \<Longrightarrow> g1 ch (a ! ch) (b ! ch) = Some (f1 ch (a ! ch) (b ! ch))"
    and g2: "\<And>ch. lo \<le> ch \<Longrightarrow> ch < n \<Longrightarrow> g2 ch (b ! ch) = Some (f2 ch (b ! ch))"
  shows "forCh lo n body (a, b) =
         Some (map (\<lambda>ch. if lo \<le> ch \<and> ch < n then f1 ch (a ! ch) (b ! ch) else a ! ch) [0..<length a],
               chanUpd lo n f2 b)"
  using len g1 g2
proof (induction "n - lo" arbitrary: lo a b)
  case 0
  then have "map (\<lambda>ch. if lo \<le> ch \<and> ch < n then f1 ch (a ! ch) (b ! ch) else a ! ch) [0..<length a] = a"
    by (intro nth_equalityI) auto
  with 0 show ?case by (simp add: forCh.simps [of lo n] chanUpd_empty)
next
  case (Suc k)
  then have lt: "lo < n" and k: "k = n - Suc lo" by auto
  have la: "lo < length a" "lo < length b" using Suc.prems(1) lt by auto
  let ?a = "a[lo := f1 lo (a ! lo) (b ! lo)]" and ?b = "b[lo := f2 lo (b ! lo)]"
  have b1: "body lo (a, b) = Some (?a, ?b)"
    using la Suc.prems(2,3) [of lo] lt by (simp add: body getChannel_def)
  have "forCh lo n body (a, b) = forCh (Suc lo) n body (?a, ?b)"
    using lt b1 by (simp add: forCh.simps [of lo n])
  also have "\<dots> = Some (map (\<lambda>ch. if Suc lo \<le> ch \<and> ch < n then f1 ch (?a ! ch) (?b ! ch) else ?a ! ch) [0..<length ?a],
               chanUpd (Suc lo) n f2 ?b)"
    using Suc.prems lt by (intro Suc(1) [OF k]) auto
  also have "chanUpd (Suc lo) n f2 ?b = chanUpd lo n f2 b"
    using chanUpd_step [OF lt la(2)] .
  also have "map (\<lambda>ch. if Suc lo \<le> ch \<and> ch < n then f1 ch (?a ! ch) (?b ! ch) else ?a ! ch) [0..<length ?a]
      = map (\<lambda>ch. if lo \<le> ch \<and> ch < n then f1 ch (a ! ch) (b ! ch) else a ! ch) [0..<length a]"
    using lt la by (intro nth_equalityI) (auto simp: nth_list_update)
  finally show ?case .
qed

lemma appendToLeftOvers_Some:
  assumes ci: "ci \<le> length (notYetUsedAudioData s)" "ci \<le> length (channels inp)"
    and c: "0 \<le> notYetUsedAudioDataCount s" "notYetUsedAudioDataCount s \<le> init" "0 \<le> numSamples inp"
    and nyu: "\<And>ch. ch < ci \<Longrightarrow> init \<le> int (length (notYetUsedAudioData s ! ch))"
             "\<And>ch. ch < ci \<Longrightarrow> notYetUsedAudioDataCount s + numSamples inp \<le> int (length (notYetUsedAudioData s ! ch))"
    and inp: "\<And>ch. ch < ci \<Longrightarrow> int (length (channels inp ! ch)) = numSamples inp"
  shows "appendToLeftOvers s inp ci init 0 = Some (appendSpec s inp ci init)"
proof -
  let ?c = "notYetUsedAudioDataCount s" and ?L = "numSamples inp"
  have "forCh 0 ci (\<lambda>ch nyu.
                  do { d \<leftarrow> getChannel nyu ch;
                       d1 \<leftarrow> copy d 0 d (init - ?c) ?c;
                       i \<leftarrow> getChannel (channels inp) ch;
                       d2 \<leftarrow> copy d1 ?c i 0 ?L;
                       Some (nyu[ch := d2]) })
                (notYetUsedAudioData s)
        = Some (chanUpd 0 ci (\<lambda>ch d. take (nat ?c) (drop (nat (init - ?c)) d) @ channels inp ! ch
                                @ drop (nat ?c + nat ?L) d) (notYetUsedAudioData s))"
  proof (rule forCh_Some [where g = "\<lambda>ch d. do { d1 \<leftarrow> copy d 0 d (init - ?c) ?c;
                       i \<leftarrow> getChannel (channels inp) ch;
                       copy d1 ?c i 0 ?L }"])
    show "0 < ci \<longrightarrow> ci \<le> length (notYetUsedAudioData s)" using ci by simp
  next
    fix ch b
    show "do { d \<leftarrow> getChannel b ch;
                       d1 \<leftarrow> copy d 0 d (init - ?c) ?c;
                       i \<leftarrow> getChannel (channels inp) ch;
                       d2 \<leftarrow> copy d1 ?c i 0 ?L;
                       Some (b[ch := d2]) } =
          do { d \<leftarrow> getChannel b ch;
               d' \<leftarrow> do { d1 \<leftarrow> copy d 0 d (init - ?c) ?c;
                       i \<leftarrow> getChannel (channels inp) ch;
                       copy d1 ?c i 0 ?L };
               Some (b[ch := d']) }" by simp
  next
    fix ch assume "0 \<le> ch" and ch: "ch < ci"
    let ?d = "notYetUsedAudioData s ! ch" and ?i = "channels inp ! ch"
    let ?d1 = "take (nat ?c) (drop (nat (init - ?c)) ?d) @ drop (nat ?c) ?d"
    have "copy ?d 0 ?d (init - ?c) ?c =
          Some (take (nat 0) ?d @ take (nat ?c) (drop (nat (init - ?c)) ?d) @ drop (nat 0 + nat ?c) ?d)"
      using c nyu [OF ch] by (intro copy_Some) auto
    then have 1: "copy ?d 0 ?d (init - ?c) ?c = Some ?d1" by simp
    have le: "nat (init - ?c) + nat ?c \<le> length ?d" using c nyu(1) [OF ch] by linarith
    have l1: "length ?d1 = length ?d" using le by simp
    have t1: "take (nat ?c) ?d1 = take (nat ?c) (drop (nat (init - ?c)) ?d)" using le by simp
    have d1: "drop (nat ?c + nat ?L) ?d1 = drop (nat ?c + nat ?L) ?d" using le by (simp add: add.commute)
    have 3: "take (nat ?L) (drop (nat 0) ?i) = ?i" using inp [OF ch] by simp
    have "copy ?d1 ?c ?i 0 ?L = Some (take (nat ?c) ?d1 @ take (nat ?L) (drop (nat 0) ?i) @ drop (nat ?c + nat ?L) ?d1)"
      using c nyu [OF ch] inp [OF ch] l1 by (intro copy_Some) auto
    then have 2: "copy ?d1 ?c ?i 0 ?L = Some (take (nat ?c) (drop (nat (init - ?c)) ?d) @ ?i @ drop (nat ?c + nat ?L) ?d)"
      by (simp only: t1 d1 3)
    have gc: "getChannel (channels inp) ch = Some ?i" using ch ci by (simp add: getChannel_def)
    show "do { d1 \<leftarrow> copy ?d 0 ?d (init - ?c) ?c;
                       i \<leftarrow> getChannel (channels inp) ch;
                       copy d1 ?c i 0 ?L }
        = Some (take (nat ?c) (drop (nat (init - ?c)) ?d) @ channels inp ! ch @ drop (nat ?c + nat ?L) ?d)"
      by (simp only: 1 Option.bind_lunit gc 2)
  qed
  then show ?thesis by (simp add: appendToLeftOvers_def appendSpec_def)
qed

lemma storeRemaining_Some:
  assumes ci: "ci \<le> length nyu" "ci \<le> length (channels inp)"
    and c: "0 \<le> dataOffset" "dataOffset \<le> numSamples inp"
    and len: "\<And>ch. ch < ci \<Longrightarrow> numSamples inp - dataOffset \<le> int (length (nyu ! ch))"
    and inp: "\<And>ch. ch < ci \<Longrightarrow> int (length (channels inp ! ch)) = numSamples inp"
  shows "forCh 0 ci (\<lambda>ch nyu.
                         do { d \<leftarrow> getChannel nyu ch;
                              i \<leftarrow> getChannel (channels inp) ch;
                              d1 \<leftarrow> copy d 0 i dataOffset (numSamples inp - dataOffset);
                              Some (nyu[ch := d1]) }) nyu
         = Some (chanUpd 0 ci (\<lambda>ch d. drop (nat dataOffset) (channels inp ! ch)
                                        @ drop (nat (numSamples inp - dataOffset)) d) nyu)"
proof (rule forCh_Some [where g = "\<lambda>ch d. do { i \<leftarrow> getChannel (channels inp) ch;
                              copy d 0 i dataOffset (numSamples inp - dataOffset) }"])
  show "0 < ci \<longrightarrow> ci \<le> length nyu" using ci by simp
next
  fix ch b
  show "do { d \<leftarrow> getChannel b ch;
             i \<leftarrow> getChannel (channels inp) ch;
             d1 \<leftarrow> copy d 0 i dataOffset (numSamples inp - dataOffset);
             Some (b[ch := d1]) } =
        do { d \<leftarrow> getChannel b ch;
             d' \<leftarrow> do { i \<leftarrow> getChannel (channels inp) ch;
                        copy d 0 i dataOffset (numSamples inp - dataOffset) };
             Some (b[ch := d']) }" by simp
next
  fix ch assume "0 \<le> ch" and ch: "ch < ci"
  let ?d = "nyu ! ch" and ?i = "channels inp ! ch" and ?L = "numSamples inp"
  have "copy ?d 0 ?i dataOffset (?L - dataOffset) =
       Some (take (nat 0) ?d @ take (nat (?L - dataOffset)) (drop (nat dataOffset) ?i)
             @ drop (nat 0 + nat (?L - dataOffset)) ?d)"
    using c len [OF ch] inp [OF ch] by (intro copy_Some) auto
  moreover have "take (nat (?L - dataOffset)) (drop (nat dataOffset) ?i) = drop (nat dataOffset) ?i"
    using c inp [OF ch] by simp
  ultimately have 1: "copy ?d 0 ?i dataOffset (?L - dataOffset) =
       Some (drop (nat dataOffset) ?i @ drop (nat (?L - dataOffset)) ?d)" by simp
  have gc: "getChannel (channels inp) ch = Some ?i" using ch ci by (simp add: getChannel_def)
  show "do { i \<leftarrow> getChannel (channels inp) ch; copy ?d 0 i dataOffset (?L - dataOffset) }
        = Some (drop (nat dataOffset) ?i @ drop (nat (?L - dataOffset)) ?d)"
    by (simp only: gc Option.bind_lunit 1)
qed

lemma returnProcessedSamples_Some:
  assumes co: "co \<le> length (channels outb)" "co \<le> length (outputBuffer s)"
    and L: "0 \<le> L"
    and sl: "\<And>ch. ch < co \<Longrightarrow> 0 \<le> shiftLength s L"
    and ob: "\<And>ch. ch < co \<Longrightarrow> L + shiftLength s L \<le> int (length (outputBuffer s ! ch))"
    and out: "\<And>ch. ch < length (channels outb) \<Longrightarrow> L \<le> int (length (channels outb ! ch))"
  shows "returnProcessedSamples s L co outb = Some (returnSpec s L co outb)"
proof -
  let ?sl = "shiftLength s L"
  let ?out1 = "map (\<lambda>ch. if 0 \<le> ch \<and> ch < co
                   then take (nat L) (outputBuffer s ! ch) @ drop (nat L) (channels outb ! ch)
                   else channels outb ! ch) [0..<length (channels outb)]"
  have 1: "forCh 0 co (\<lambda>ch (out, ob).
                          do { dst \<leftarrow> getChannel out ch;
                               b \<leftarrow> getChannel ob ch;
                               o1 \<leftarrow> copy dst 0 b 0 L;
                               b1 \<leftarrow> copy b 0 b L ?sl;
                               Some (out[ch := o1], ob[ch := b1]) })
                        (channels outb, outputBuffer s)
      = Some (?out1, chanUpd 0 co (\<lambda>ch b. take (nat ?sl) (drop (nat L) b) @ drop (nat ?sl) b) (outputBuffer s))"
  proof (rule forCh_pair_Some [where ?g1.0 = "\<lambda>ch dst b. copy dst 0 b 0 L" and ?g2.0 = "\<lambda>ch b. copy b 0 b L ?sl"])
    show "0 < co \<longrightarrow> co \<le> length (channels outb) \<and> co \<le> length (outputBuffer s)" using co by simp
  next
    fix ch a b
    show "(case (a, b) of (out, ob) \<Rightarrow>
                          do { dst \<leftarrow> getChannel out ch;
                               b \<leftarrow> getChannel ob ch;
                               o1 \<leftarrow> copy dst 0 b 0 L;
                               b1 \<leftarrow> copy b 0 b L ?sl;
                               Some (out[ch := o1], ob[ch := b1]) }) =
          do { x \<leftarrow> getChannel a ch; y \<leftarrow> getChannel b ch; x' \<leftarrow> copy x 0 y 0 L; y' \<leftarrow> copy y 0 y L ?sl;
               Some (a[ch := x'], b[ch := y']) }" by simp
  next
    fix ch assume "0 \<le> ch" and ch: "ch < co"
    have "copy (channels outb ! ch) 0 (outputBuffer s ! ch) 0 L =
        Some (take (nat 0) (channels outb ! ch) @ take (nat L) (drop (nat 0) (outputBuffer s ! ch))
              @ drop (nat 0 + nat L) (channels outb ! ch))"
      using L sl [OF ch] ob [OF ch] out [of ch] ch co by (intro copy_Some) auto
    then show "copy (channels outb ! ch) 0 (outputBuffer s ! ch) 0 L =
        Some (take (nat L) (outputBuffer s ! ch) @ drop (nat L) (channels outb ! ch))" by simp
    have "copy (outputBuffer s ! ch) 0 (outputBuffer s ! ch) L ?sl =
        Some (take (nat 0) (outputBuffer s ! ch) @ take (nat ?sl) (drop (nat L) (outputBuffer s ! ch))
              @ drop (nat 0 + nat ?sl) (outputBuffer s ! ch))"
      using L sl [OF ch] ob [OF ch] by (intro copy_Some) auto
    then show "copy (outputBuffer s ! ch) 0 (outputBuffer s ! ch) L ?sl =
        Some (take (nat ?sl) (drop (nat L) (outputBuffer s ! ch)) @ drop (nat ?sl) (outputBuffer s ! ch))"
      by simp
  qed
  have 2: "forCh co (getNumChannels outb) (\<lambda>ch out.
                     do { dst \<leftarrow> getChannel out ch;
                          o1 \<leftarrow> clear dst L;
                          Some (out[ch := o1]) }) ?out1
        = Some (chanUpd co (getNumChannels outb) (\<lambda>ch d. replicate (nat L) 0 @ drop (nat L) d) ?out1)"
  proof (rule forCh_Some [where g = "\<lambda>ch d. clear d L"])
    show "co < getNumChannels outb \<longrightarrow> getNumChannels outb \<le> length ?out1"
      by (simp add: getNumChannels_def)
  next
    fix ch b
    show "do { dst \<leftarrow> getChannel b ch; o1 \<leftarrow> clear dst L; Some (b[ch := o1]) }
        = do { d \<leftarrow> getChannel b ch; d' \<leftarrow> clear d L; Some (b[ch := d']) }" by simp
  next
    fix ch assume a: "co \<le> ch" "ch < getNumChannels outb"
    then have "?out1 ! ch = channels outb ! ch" by (simp add: getNumChannels_def)
    then show "clear (?out1 ! ch) L = Some (replicate (nat L) 0 @ drop (nat L) (?out1 ! ch))"
      using L out [of ch] a by (simp add: clear_def writeRange_def getNumChannels_def)
  qed
  have 3: "chanUpd co (getNumChannels outb) (\<lambda>ch d. replicate (nat L) 0 @ drop (nat L) d) ?out1
       = map (\<lambda>ch. if ch < co
                   then take (nat L) (outputBuffer s ! ch) @ drop (nat L) (channels outb ! ch)
                   else replicate (nat L) 0 @ drop (nat L) (channels outb ! ch))
            [0..<length (channels outb)]"
    by (rule nth_equalityI) (auto simp: nth_chanUpd getNumChannels_def)
  show ?thesis
    unfolding returnProcessedSamples_def Let_def 1 Option.bind_lunit prod.case 2 3 returnSpec_def ..
qed

lemma numFrames_unique:
  assumes h: "0 < h" and a: "T - int n * h < N" and b: "0 < n \<longrightarrow> N \<le> T - (int n - 1) * h"
  shows "n = numFrames N h T"
proof (cases "n = 0")
  case True
  then show ?thesis using a by (simp add: numFrames_def)
next
  case False
  then have n: "0 < n" by simp
  with b have b': "N \<le> T - (int n - 1) * h" by simp
  have "0 \<le> (int n - 1) * h" using n h by simp
  with b' have TN: "\<not> T < N" by linarith
  have lo: "(int n - 1) * h \<le> T - N" using b' by linarith
  have hi: "T - N < ((int n - 1) + 1) * h" using a by (simp add: algebra_simps)
  have "(T - N) div h = int n - 1"
  proof (rule antisym)
    have "T - N \<le> (h - 1) + (int n - 1) * h" using hi by (simp add: algebra_simps)
    then have "(T - N) div h \<le> ((h - 1) + (int n - 1) * h) div h"
      using h by (intro zdiv_mono1) auto
    also have "\<dots> = (h - 1) div h + (int n - 1)" using h by simp
    also have "(h - 1) div h = 0" using h by (intro div_pos_pos_trivial) auto
    finally show "(T - N) div h \<le> int n - 1" by simp
    have "((int n - 1) * h) div h \<le> (T - N) div h"
      using lo h by (intro zdiv_mono1) auto
    then show "int n - 1 \<le> (T - N) div h" using h by simp
  qed
  then show ?thesis using TN n by (simp add: numFrames_def)
qed

lemma shift_bounds:
  assumes ok: "shapeOK B s" and L: "0 \<le> L" "L \<le> B"
    and c: "0 \<le> c" "c \<le> fftSize s - 1" "outputOffset s - L = fftSize s - 1 - c"
    and ch: "ch < nChIn s"
  shows "0 \<le> shiftLength s L" "L + shiftLength s L \<le> int (length (outputBuffer s ! ch))"
proof -
  let ?cap = "outputBufferSize (fftSize s) (hopSize s) B"
  have len: "int (length (outputBuffer s ! ch)) = ?cap" using ok ch by (simp add: shapeOK_def)
  have gs: "outputBufferNumSamples s = ?cap" using ok by (simp add: shapeOK_def)
  have cap: "fftSize s + B - 1 \<le> ?cap"
    using ok by (intro outputBufferSize_ge) (auto simp: shapeOK_def)
  have h: "0 < hopSize s" "hopSize s \<le> fftSize s" using ok by (auto simp: shapeOK_def)
  show "0 \<le> shiftLength s L" "L + shiftLength s L \<le> int (length (outputBuffer s ! ch))"
    unfolding len using cap h L c by (auto simp: shiftLength_def tooMuch_def gs Let_def)
qed

lemma process_step:
  fixes s :: "'a::{zero,plus,times} engine"
  assumes ok: "engineOK B s" and io: "nChOut s \<le> nChIn s"
    and inp: "blockOK L inp" and out: "blockOK L outb" and LB: "L \<le> B"
  defines "ci \<equiv> min (getNumChannels inp) (nChIn s)"
    and "co \<equiv> min (getNumChannels outb) (nChOut s)"
    and "n \<equiv> numFrames (fftSize s) (hopSize s) (notYetUsedAudioDataCount s + L)"
  defines "sf \<equiv> frames ci (max ci co) n (pending s inp) s"
  defines "c' \<equiv> notYetUsedAudioDataCount s + L - int n * hopSize s"
  shows "\<exists>nyu'. process s inp outb
            = Some (returnSpec (sf \<lparr> notYetUsedAudioData := nyu', notYetUsedAudioDataCount := c' \<rparr>) L co outb)
      \<and> length nyu' = nChIn s \<and> (\<forall>ch<nChIn s. int (length (nyu' ! ch)) = fftSize s - 1)
      \<and> (\<forall>ch<ci. take (nat c') (nyu' ! ch) = drop (n * hopN s) (pending s inp ch))
      \<and> (\<forall>ch. ci \<le> ch \<and> ch < nChIn s \<longrightarrow> nyu' ! ch = notYetUsedAudioData s ! ch)
      \<and> shapeOK B sf \<and> 0 \<le> c' \<and> c' \<le> fftSize s - 1"
proof -
  let ?N = "fftSize s" and ?h = "hopSize s" and ?c0 = "notYetUsedAudioDataCount s"
  let ?m = "max ci co" and ?z = "pending s inp" and ?nyu = "notYetUsedAudioData s"
  have sh: "shapeOK B s" and c0: "0 \<le> ?c0" "?c0 \<le> ?N - 1" and off: "outputOffset s = ?N - 1 - ?c0"
    using ok by (auto simp: engineOK_def)
  have h: "0 < ?h" "?h \<le> ?N" using sh by (auto simp: shapeOK_def)
  have nL: "numSamples inp = L" and L0: "0 \<le> L" using inp by (auto simp: blockOK_def)
  have cin: "ci \<le> nChIn s" "ci \<le> length (channels inp)" by (auto simp: ci_def getNumChannels_def)
  have linp: "\<And>ch. ch < ci \<Longrightarrow> int (length (channels inp ! ch)) = numSamples inp"
    using inp cin by (auto simp: blockOK_def)
  have lnyu: "\<And>ch. ch < nChIn s \<Longrightarrow> int (length (?nyu ! ch)) = ?N - 1"
    using sh by (auto simp: shapeOK_def)
  have lennyu: "length ?nyu = nChIn s" using sh by (auto simp: shapeOK_def)
  have ltk: "length (take (nat ?c0) (?nyu ! ch)) = nat ?c0" if "ch < ci" for ch
  proof -
    have "nat ?c0 \<le> length (?nyu ! ch)" using lnyu [of ch] that cin c0 by linarith
    then show ?thesis by simp
  qed
  have "\<exists>n1. whileLeftOvers inp ci ?m s 0
              = Some ((frames ci ?m n1 ?z s) \<lparr> notYetUsedAudioDataCount := ?c0 - int n1 * ?h \<rparr>,
                      0 + int n1 * ?h)
       \<and> \<not> (0 < ?c0 - int n1 * ?h \<and> ?N \<le> ?c0 - int n1 * ?h + numSamples inp)
       \<and> (0 < n1 \<longrightarrow> 0 < ?c0 - (int n1 - 1) * ?h \<and> ?N \<le> ?c0 - (int n1 - 1) * ?h + numSamples inp)
       \<and> shapeOK B (frames ci ?m n1 ?z s)"
  proof (rule whileLeftOvers_Some [OF sh io cin])
    show "numSamples inp \<le> B" using nL LB by simp
    show "\<And>ch. ch < ci \<Longrightarrow> int (length (channels inp ! ch)) = numSamples inp" by (rule linp)
    show "?c0 = ?c0" ..
    show "(0::int) \<le> 0" by simp
    show "0 + ?c0 \<le> ?N - 1" using c0 by simp
    show "outputOffset s = ?N - 1 - ?c0" by (rule off)
    show "\<forall>ch<ci. ?z ch = take (nat ?c0) (drop (nat 0) (?nyu ! ch)) @ channels inp ! ch"
      by (simp add: pending_def)
  qed
  then obtain n1 where w1: "whileLeftOvers inp ci ?m s 0
              = Some ((frames ci ?m n1 ?z s) \<lparr> notYetUsedAudioDataCount := ?c0 - int n1 * ?h \<rparr>, int n1 * ?h)"
       and e1: "\<not> (0 < ?c0 - int n1 * ?h \<and> ?N \<le> ?c0 - int n1 * ?h + L)"
       and l1: "0 < n1 \<longrightarrow> 0 < ?c0 - (int n1 - 1) * ?h \<and> ?N \<le> ?c0 - (int n1 - 1) * ?h + L"
       and sh1: "shapeOK B (frames ci ?m n1 ?z s)"
    unfolding nL by auto
  let ?f1 = "frames ci ?m n1 ?z s"
  let ?c1 = "?c0 - int n1 * ?h"
  let ?s1 = "?f1 \<lparr> notYetUsedAudioDataCount := ?c1 \<rparr>"
  have c1le: "?c1 \<le> ?c0" using h by simp
  have proc: "process s inp outb =
      do { s2 \<leftarrow> (if notYetUsedAudioDataCount ?s1 > 0
                  then appendToLeftOvers ?s1 inp ci ?c0 0
                  else consumeInput ?s1 inp ci ?m);
           returnProcessedSamples s2 L co outb }"
    unfolding process_def Let_def ci_def [symmetric] co_def [symmetric] w1 nL by simp
  have ret: "returnProcessedSamples (sf \<lparr> notYetUsedAudioData := nyu', notYetUsedAudioDataCount := c' \<rparr>) L co outb
        = Some (returnSpec (sf \<lparr> notYetUsedAudioData := nyu', notYetUsedAudioDataCount := c' \<rparr>) L co outb)"
    if shf: "shapeOK B sf" and cb: "0 \<le> c'" "c' \<le> ?N - 1" and ln: "length nyu' = nChIn s"
      "\<forall>ch<nChIn s. int (length (nyu' ! ch)) = ?N - 1" for nyu'
  proof -
    let ?s2 = "sf \<lparr> notYetUsedAudioData := nyu', notYetUsedAudioDataCount := c' \<rparr>"
    have sh2: "shapeOK B ?s2" using shf ln by (simp add: shapeOK_def sf_def)
    have o2: "outputOffset ?s2 - L = fftSize ?s2 - 1 - c'"
      by (simp add: sf_def off c'_def)
    have con: "co \<le> nChIn ?s2" using io by (simp add: co_def sf_def)
    show ?thesis
    proof (rule returnProcessedSamples_Some)
      show "co \<le> length (channels outb)" by (simp add: co_def getNumChannels_def)
      show "co \<le> length (outputBuffer ?s2)" using sh2 con by (simp add: shapeOK_def)
      show "0 \<le> L" by (rule L0)
      show "0 \<le> shiftLength ?s2 L" if "ch < co" for ch
        using shift_bounds(1) [OF sh2 L0 LB _ _ o2, of ch] cb that con by (simp add: sf_def)
      show "L + shiftLength ?s2 L \<le> int (length (outputBuffer ?s2 ! ch))" if "ch < co" for ch
        using shift_bounds(2) [OF sh2 L0 LB _ _ o2, of ch] cb that con by (simp add: sf_def)
      show "L \<le> int (length (channels outb ! ch))" if "ch < length (channels outb)" for ch
        using out that by (simp add: blockOK_def)
    qed
  qed
  show ?thesis
  proof (cases "0 < ?c1")
    case True
    with e1 have small: "?c1 + L < ?N" by simp
    have nn: "n1 = n" unfolding n_def
      using small l1 by (intro numFrames_unique [OF h(1)]) (auto simp: algebra_simps)
    have sfeq: "?f1 = sf" by (simp add: sf_def nn)
    have c'eq: "c' = ?c1 + L" by (simp add: c'_def nn)
    let ?nyu' = "chanUpd 0 ci (\<lambda>ch d. take (nat ?c1) (drop (nat (?c0 - ?c1)) d) @ channels inp ! ch
                                @ drop (nat ?c1 + nat L) d) ?nyu"
    have app: "appendToLeftOvers ?s1 inp ci ?c0 0 = Some (appendSpec ?s1 inp ci ?c0)"
    proof (rule appendToLeftOvers_Some)
      show "ci \<le> length (notYetUsedAudioData ?s1)" using cin lennyu by simp
      show "ci \<le> length (channels inp)" by (rule cin)
      show "0 \<le> notYetUsedAudioDataCount ?s1" using True by simp
      show "notYetUsedAudioDataCount ?s1 \<le> ?c0" using c1le by simp
      show "0 \<le> numSamples inp" using nL L0 by simp
      show "?c0 \<le> int (length (notYetUsedAudioData ?s1 ! ch))" if "ch < ci" for ch
        using lnyu [of ch] that cin c0 by simp
      show "notYetUsedAudioDataCount ?s1 + numSamples inp \<le> int (length (notYetUsedAudioData ?s1 ! ch))"
        if "ch < ci" for ch
        using lnyu [of ch] that cin small nL by simp
      show "\<And>ch. ch < ci \<Longrightarrow> int (length (channels inp ! ch)) = numSamples inp" by (rule linp)
    qed
    have s2: "appendSpec ?s1 inp ci ?c0 = sf \<lparr> notYetUsedAudioData := ?nyu', notYetUsedAudioDataCount := c' \<rparr>"
      using sfeq [symmetric] by (simp add: appendSpec_def c'eq nL)
    have ln: "length ?nyu' = nChIn s" using lennyu by simp
    have lc: "int (length (?nyu' ! ch)) = ?N - 1" if "ch < nChIn s" for ch
    proof (cases "ch < ci")
      case False
      then show ?thesis using that lnyu [OF that] lennyu by (simp add: nth_chanUpd)
    next
      case ch: True
      have a: "nat (?c0 - ?c1) + nat ?c1 \<le> length (?nyu ! ch)"
        using lnyu [OF that] c0 True c1le by linarith
      have b: "nat ?c1 + nat L \<le> length (?nyu ! ch)"
        using lnyu [OF that] small True L0 by linarith
      have "length (channels inp ! ch) = nat L" using linp [OF ch] nL by simp
      then have "length (?nyu' ! ch) = length (?nyu ! ch)"
        using that lennyu ch a b by (simp add: nth_chanUpd)
      then show ?thesis using lnyu [OF that] by simp
    qed
    have pre: "take (nat c') (?nyu' ! ch) = drop (n * hopN s) (?z ch)" if ch: "ch < ci" for ch
    proof -
      have chn: "ch < nChIn s" using ch cin by simp
      have a: "nat (?c0 - ?c1) + nat ?c1 \<le> length (?nyu ! ch)"
        using lnyu [OF chn] c0 True c1le by linarith
      have li: "length (channels inp ! ch) = nat L" using linp [OF ch] nL by simp
      have nh: "n * hopN s = nat (?c0 - ?c1)" using h nn by (simp add: nat_mult_distrib)
      have nc: "nat c' = nat ?c1 + nat L" using c'eq True L0 by (simp add: nat_add_distrib)
      have "take (nat c') (?nyu' ! ch) = take (nat ?c1) (drop (nat (?c0 - ?c1)) (?nyu ! ch)) @ channels inp ! ch"
        using chn lennyu ch a li unfolding nc by (simp add: nth_chanUpd)
      also have "take (nat ?c1) (drop (nat (?c0 - ?c1)) (?nyu ! ch)) = drop (nat (?c0 - ?c1)) (take (nat ?c0) (?nyu ! ch))"
        using True c1le by (simp add: drop_take nat_diff_distrib)
      also have "drop (nat (?c0 - ?c1)) (take (nat ?c0) (?nyu ! ch)) @ channels inp ! ch
             = drop (nat (?c0 - ?c1)) (?z ch)"
        using ltk [OF ch] True c1le unfolding pending_def by simp
      finally show ?thesis unfolding nh .
    qed
    have oth: "?nyu' ! ch = ?nyu ! ch" if "ci \<le> ch \<and> ch < nChIn s" for ch
      using that lennyu by (simp add: nth_chanUpd)
    have cb: "0 \<le> c'" "c' \<le> ?N - 1" using c'eq True L0 small by auto
    have shf: "shapeOK B sf" using sh1 sfeq by simp
    have "process s inp outb = returnProcessedSamples (sf \<lparr> notYetUsedAudioData := ?nyu', notYetUsedAudioDataCount := c' \<rparr>) L co outb"
      unfolding proc using True app s2 by simp
    also have "\<dots> = Some (returnSpec (sf \<lparr> notYetUsedAudioData := ?nyu', notYetUsedAudioDataCount := c' \<rparr>) L co outb)"
      using ret [OF shf cb ln] lc by simp
    finally show ?thesis
      using ln lc pre oth shf cb by (intro exI [of _ ?nyu']) simp
  next
    case False
    then have c1: "?c1 \<le> 0" by simp
    let ?d = "- ?c1"
    let ?z2 = "\<lambda>ch. drop (n1 * hopN ?s1) (?z ch)"
    have n1h: "int (n1 * hopN s) = int n1 * ?h" using h by simp
    have dz: "drop (n1 * hopN s) (?z ch) = drop (nat ?d) (channels inp ! ch)" if "ch < ci" for ch
    proof -
      have "n1 * hopN s = nat ?c0 + nat ?d" using c1 c0 n1h by linarith
      then show ?thesis using ltk [OF that] unfolding pending_def by simp
    qed
    have "\<exists>n2. whileInput inp ci ?m ?s1 ?d = Some (frames ci ?m n2 ?z2 ?s1, ?d + int n2 * hopSize ?s1)
       \<and> numSamples inp - (?d + int n2 * hopSize ?s1) < fftSize ?s1
       \<and> (0 < n2 \<longrightarrow> fftSize ?s1 \<le> numSamples inp - (?d + (int n2 - 1) * hopSize ?s1))
       \<and> shapeOK B (frames ci ?m n2 ?z2 ?s1)"
    proof (rule whileInput_Some)
      show "shapeOK B ?s1" using sh1 by simp
      show "nChOut ?s1 \<le> nChIn ?s1" using io by simp
      show "ci \<le> nChIn ?s1" using cin by simp
      show "ci \<le> length (channels inp)" by (rule cin)
      show "numSamples inp \<le> B" using nL LB by simp
      show "\<And>ch. ch < ci \<Longrightarrow> int (length (channels inp ! ch)) = numSamples inp" by (rule linp)
      show "0 \<le> ?d" using c1 by simp
      show "outputOffset ?s1 = fftSize ?s1 - 1 + ?d" using off by simp
      show "\<forall>ch<ci. ?z2 ch = drop (nat ?d) (channels inp ! ch)" using dz by simp
    qed
    then obtain n2 where w2: "whileInput inp ci ?m ?s1 ?d = Some (frames ci ?m n2 ?z2 ?s1, ?d + int n2 * ?h)"
       and e2: "L - (?d + int n2 * ?h) < ?N"
       and l2: "0 < n2 \<longrightarrow> ?N \<le> L - (?d + (int n2 - 1) * ?h)"
       and sh2: "shapeOK B (frames ci ?m n2 ?z2 ?s1)"
      unfolding nL by auto
    have nn: "n1 + n2 = n" unfolding n_def
    proof (rule numFrames_unique [OF h(1)])
      show "?c0 + L - int (n1 + n2) * ?h < ?N" using e2 by (simp add: algebra_simps)
      show "0 < n1 + n2 \<longrightarrow> ?N \<le> ?c0 + L - (int (n1 + n2) - 1) * ?h"
      proof (cases "n2 = 0")
        case True then show ?thesis using l1 by (auto simp: algebra_simps)
      next
        case False then show ?thesis using l2 by (auto simp: algebra_simps)
      qed
    qed
    have f2: "frames ci ?m n2 ?z2 ?s1 = sf \<lparr> notYetUsedAudioDataCount := ?c1 \<rparr>"
      unfolding sf_def nn [symmetric] frames_add by (simp add: frames_count_update)
    have shf: "shapeOK B sf" using sh2 unfolding f2 by simp
    let ?d2 = "?d + int n2 * ?h"
    have c'eq: "c' = L - ?d2" unfolding c'_def nn [symmetric] by (simp add: algebra_simps)
    have rem0: "0 \<le> L - ?d2"
    proof (cases "n2 = 0")
      case False
      then show ?thesis using l2 h by (simp add: algebra_simps)
    next
      case n2: True
      show ?thesis
      proof (cases "n1 = 0")
        case True then show ?thesis using n2 c0 L0 by simp
      next
        case False then show ?thesis using n2 l1 h by (simp add: algebra_simps)
      qed
    qed
    have cb: "0 \<le> c'" "c' \<le> ?N - 1" using c'eq rem0 e2 by auto
    have d2: "0 \<le> ?d2" using c1 h by simp
    let ?nyu' = "if 0 < L - ?d2 then chanUpd 0 ci (\<lambda>ch d. drop (nat ?d2) (channels inp ! ch)
                                        @ drop (nat (numSamples inp - ?d2)) d) ?nyu else ?nyu"
    have st: "0 < L - ?d2 \<Longrightarrow> forCh 0 ci (\<lambda>ch nyu.
                         do { d \<leftarrow> getChannel nyu ch;
                              i \<leftarrow> getChannel (channels inp) ch;
                              d1 \<leftarrow> copy d 0 i ?d2 (numSamples inp - ?d2);
                              Some (nyu[ch := d1]) }) ?nyu = Some ?nyu'"
      using cin lennyu d2 rem0 nL linp lnyu e2
      by (subst storeRemaining_Some) auto
    have con: "consumeInput ?s1 inp ci ?m = Some (sf \<lparr> notYetUsedAudioData := ?nyu', notYetUsedAudioDataCount := c' \<rparr>)"
    proof -
      have w2': "whileInput inp ci ?m ?s1 (- notYetUsedAudioDataCount ?s1)
                 = Some (sf \<lparr> notYetUsedAudioDataCount := ?c1 \<rparr>, ?d2)"
        using w2 f2 by simp
      have nsf: "notYetUsedAudioData sf = ?nyu" by (simp add: sf_def)
      show ?thesis
        unfolding consumeInput_def w2' Option.bind_lunit prod.case Let_def nL
        using st by (simp add: c'eq nL nsf)
    qed
    have ln: "length ?nyu' = nChIn s" using lennyu by simp
    have lc: "int (length (?nyu' ! ch)) = ?N - 1" if "ch < nChIn s" for ch
    proof (cases "ch < ci \<and> 0 < L - ?d2")
      case False
      then show ?thesis using that lnyu [OF that] lennyu by (auto simp: nth_chanUpd)
    next
      case True
      then have ch: "ch < ci" by simp
      have a: "nat ?d2 \<le> length (channels inp ! ch)" using linp [OF ch] nL rem0 d2 by linarith
      have b: "nat (L - ?d2) \<le> length (?nyu ! ch)" using lnyu [OF that] e2 by linarith
      have "length (?nyu' ! ch) = (length (channels inp ! ch) - nat ?d2) + (length (?nyu ! ch) - nat (L - ?d2))"
        using True that lennyu nL by (simp add: nth_chanUpd)
      also have "int \<dots> = ?N - 1"
        using a b linp [OF ch] lnyu [OF that] nL d2 rem0 by (simp add: of_nat_diff)
      finally show ?thesis .
    qed
    have pre: "take (nat c') (?nyu' ! ch) = drop (n * hopN s) (?z ch)" if ch: "ch < ci" for ch
    proof -
      have chn: "ch < nChIn s" using ch cin by simp
      have li: "length (channels inp ! ch) = nat L" using linp [OF ch] nL by simp
      have nh: "n * hopN s = nat ?c0 + nat ?d2"
      proof -
        have "int (n * hopN s) = int n * ?h" using h by simp
        also have "\<dots> = ?c0 + ?d2" unfolding nn [symmetric] by (simp add: algebra_simps)
        finally show ?thesis using c0 d2 by linarith
      qed
      have r: "drop (n * hopN s) (?z ch) = drop (nat ?d2) (channels inp ! ch)"
        unfolding nh pending_def using ltk [OF ch] by simp
      show ?thesis
      proof (cases "0 < L - ?d2")
        case True
        have "length (drop (nat ?d2) (channels inp ! ch)) = nat c'"
          using li c'eq d2 True by (simp add: nat_diff_distrib)
        then show ?thesis unfolding r using True chn lennyu ch by (simp add: nth_chanUpd)
      next
        case False
        then have "c' = 0" "nat L \<le> nat ?d2" using c'eq rem0 by auto
        then show ?thesis unfolding r using li by simp
      qed
    qed
    have oth: "?nyu' ! ch = ?nyu ! ch" if "ci \<le> ch \<and> ch < nChIn s" for ch
      using that lennyu by (simp add: nth_chanUpd)
    have "process s inp outb = returnProcessedSamples (sf \<lparr> notYetUsedAudioData := ?nyu', notYetUsedAudioDataCount := c' \<rparr>) L co outb"
      unfolding proc using False con by simp
    also have "\<dots> = Some (returnSpec (sf \<lparr> notYetUsedAudioData := ?nyu', notYetUsedAudioDataCount := c' \<rparr>) L co outb)"
      using ret [OF shf cb ln] lc by simp
    finally show ?thesis
      using ln lc pre oth shf cb by (intro exI [of _ ?nyu']) simp
  qed
qed

lemma returnSpec_fields [simp]:
  "window (fst (returnSpec s L co outb)) = window s"
  "fftInOutBuffer (fst (returnSpec s L co outb)) = fftInOutBuffer s"
  "fftSize (fst (returnSpec s L co outb)) = fftSize s"
  "hopSize (fst (returnSpec s L co outb)) = hopSize s"
  "nChIn (fst (returnSpec s L co outb)) = nChIn s"
  "nChOut (fst (returnSpec s L co outb)) = nChOut s"
  "notYetUsedAudioData (fst (returnSpec s L co outb)) = notYetUsedAudioData s"
  "notYetUsedAudioDataCount (fst (returnSpec s L co outb)) = notYetUsedAudioDataCount s"
  "processFrameInBuffer (fst (returnSpec s L co outb)) = processFrameInBuffer s"
  "outputBufferNumSamples (fst (returnSpec s L co outb)) = outputBufferNumSamples s"
  "outputOffset (fst (returnSpec s L co outb)) = outputOffset s - L"
  "numSamples (snd (returnSpec s L co outb)) = numSamples outb"
  "length (channels (snd (returnSpec s L co outb))) = length (channels outb)"
  by (simp_all add: returnSpec_def)

lemma returnSpec_blockOK:
  assumes "blockOK L outb" "\<And>ch. ch < co \<Longrightarrow> L \<le> int (length (outputBuffer s ! ch))"
  shows "blockOK L (snd (returnSpec s L co outb))"
proof -
  have "int (length (take (nat L) (outputBuffer s ! ch) @ drop (nat L) (channels outb ! ch))) = L"
    if "ch < co" "ch < length (channels outb)" for ch
  proof -
    have "nat L \<le> length (outputBuffer s ! ch)" "length (channels outb ! ch) = nat L"
      using assms(2) [OF that(1)] assms(1) that(2) by (auto simp: blockOK_def)
    then show ?thesis using assms(1) by (simp add: blockOK_def)
  qed
  moreover have "int (length (replicate (nat L) (0::'a) @ drop (nat L) (channels outb ! ch))) = L"
    if "ch < length (channels outb)" for ch
    using assms(1) that by (auto simp: blockOK_def)
  ultimately show ?thesis
    using assms(1) by (auto simp: blockOK_def returnSpec_def simp del: length_append)
qed

lemma process_engineOK:
  fixes s :: "'a::{zero,plus,times} engine"
  assumes ok: "engineOK B s" and io: "nChOut s \<le> nChIn s"
    and inp: "blockOK L inp" and out: "blockOK L outb" and LB: "L \<le> B"
  shows "\<exists>s' ob. process s inp outb = Some (s', ob) \<and> engineOK B s' \<and>
           nChIn s' = nChIn s \<and> nChOut s' = nChOut s \<and>
           fftSize s' = fftSize s \<and> hopSize s' = hopSize s \<and> window s' = window s \<and>
           processFrameInBuffer s' = processFrameInBuffer s \<and>
           notYetUsedAudioDataCount s' = notYetUsedAudioDataCount s + L
              - int (numFrames (fftSize s) (hopSize s) (notYetUsedAudioDataCount s + L)) * hopSize s \<and>
           blockOK L ob \<and> getNumChannels ob = getNumChannels outb"
proof -
  define ci where "ci = min (getNumChannels inp) (nChIn s)"
  define co where "co = min (getNumChannels outb) (nChOut s)"
  define n where "n = numFrames (fftSize s) (hopSize s) (notYetUsedAudioDataCount s + L)"
  define sf where "sf = frames ci (max ci co) n (pending s inp) s"
  define c' where "c' = notYetUsedAudioDataCount s + L - int n * hopSize s"
  obtain nyu' where p: "process s inp outb
            = Some (returnSpec (sf \<lparr> notYetUsedAudioData := nyu', notYetUsedAudioDataCount := c' \<rparr>) L co outb)"
      and ln: "length nyu' = nChIn s" and lc: "\<forall>ch<nChIn s. int (length (nyu' ! ch)) = fftSize s - 1"
      and shf: "shapeOK B sf" and cb: "0 \<le> c'" "c' \<le> fftSize s - 1"
    using process_step [OF ok io inp out LB] unfolding ci_def co_def n_def sf_def c'_def by blast
  let ?s2 = "sf \<lparr> notYetUsedAudioData := nyu', notYetUsedAudioDataCount := c' \<rparr>"
  let ?r = "returnSpec ?s2 L co outb"
  have L0: "0 \<le> L" using inp by (simp add: blockOK_def)
  have off: "outputOffset s = fftSize s - 1 - notYetUsedAudioDataCount s" using ok by (simp add: engineOK_def)
  have sh2: "shapeOK B ?s2" using shf ln lc by (simp add: shapeOK_def sf_def)
  have o2: "outputOffset ?s2 - L = fftSize ?s2 - 1 - c'"
    by (simp add: sf_def off c'_def)
  have con: "co \<le> nChIn s" using io by (simp add: co_def)
  have sb: "0 \<le> shiftLength ?s2 L" "L + shiftLength ?s2 L \<le> int (length (outputBuffer ?s2 ! ch))"
    if "ch < co" for ch
    using shift_bounds [OF sh2 L0 LB _ _ o2, of ch] cb that con by (simp_all add: sf_def)
  have lob: "int (length (outputBuffer (fst ?r) ! ch)) = outputBufferSize (fftSize s) (hopSize s) B"
    if ch: "ch < nChIn s" for ch
  proof -
    have l: "int (length (outputBuffer ?s2 ! ch)) = outputBufferSize (fftSize s) (hopSize s) B"
      "ch < length (outputBuffer ?s2)"
      using sh2 ch by (simp_all add: shapeOK_def sf_def)
    show ?thesis
    proof (cases "ch < co")
      case False
      then show ?thesis using l by (simp add: returnSpec_def nth_chanUpd)
    next
      case True
      have a: "nat L + nat (shiftLength ?s2 L) \<le> length (outputBuffer ?s2 ! ch)"
        using sb [OF True] L0 by linarith
      then have "length (take (nat (shiftLength ?s2 L)) (drop (nat L) (outputBuffer ?s2 ! ch))
                 @ drop (nat (shiftLength ?s2 L)) (outputBuffer ?s2 ! ch)) = length (outputBuffer ?s2 ! ch)"
        by simp
      then show ?thesis using l True by (simp add: returnSpec_def nth_chanUpd)
    qed
  qed
  have sh': "shapeOK B (fst ?r)"
    using sh2 lob unfolding shapeOK_def returnSpec_fields
    by (simp add: sf_def returnSpec_def)
  have ok': "engineOK B (fst ?r)"
    unfolding engineOK_def using sh' cb o2 by (simp add: sf_def)
  have bo: "blockOK L (snd ?r)"
  proof (rule returnSpec_blockOK [OF out])
    fix ch assume "ch < co"
    from sb [OF this] show "L \<le> int (length (outputBuffer ?s2 ! ch))" by simp
  qed
  have "process s inp outb = Some (fst ?r, snd ?r)" using p by simp
  moreover have "notYetUsedAudioDataCount (fst ?r) = c'" by simp
  moreover have "nChIn (fst ?r) = nChIn s" "nChOut (fst ?r) = nChOut s"
    "fftSize (fst ?r) = fftSize s" "hopSize (fst ?r) = hopSize s" "window (fst ?r) = window s"
    "processFrameInBuffer (fst ?r) = processFrameInBuffer s" by (simp_all add: sf_def)
  moreover have "getNumChannels (snd ?r) = getNumChannels outb" by (simp add: getNumChannels_def)
  ultimately show ?thesis
    using ok' bo unfolding c'_def n_def by blast
qed

lemma forCh_invariant:
  assumes "forCh lo n body s = Some s'" and "P s"
    and "\<And>ch x y. lo \<le> ch \<Longrightarrow> ch < n \<Longrightarrow> P x \<Longrightarrow> body ch x = Some y \<Longrightarrow> P y"
  shows "P s'"
  using assms
proof (induction "n - lo" arbitrary: lo s)
  case 0
  then show ?case by (simp add: forCh.simps [of lo n])
next
  case (Suc k)
  then have lt: "lo < n" and k: "k = n - Suc lo" by auto
  from Suc.prems(1) lt obtain s1 where b: "body lo s = Some s1" and r: "forCh (Suc lo) n body s1 = Some s'"
    by (auto simp: forCh.simps [of lo n] split: option.splits)
  have "P s1" using Suc.prems(3) [OF _ lt Suc.prems(2) b] by simp
  moreover have "\<And>ch x y. Suc lo \<le> ch \<Longrightarrow> ch < n \<Longrightarrow> P x \<Longrightarrow> body ch x = Some y \<Longrightarrow> P y"
    using Suc.prems(3) by (meson Suc_leD)
  ultimately show ?case using Suc(1) [OF k r] by blast
qed

lemma map_length_update:
  "i < length xs \<Longrightarrow> length y = length (xs ! i) \<Longrightarrow> map length (xs[i := y]) = map length xs"
  by (simp add: map_update list_update_same_conv)

lemma copy_length: "copy dest d src s num = Some r \<Longrightarrow> length r = length dest"
  by (auto simp: copy_def bind_eq_Some_conv dest: length_writeRange)

lemma clear_length: "clear dest num = Some r \<Longrightarrow> length r = length dest"
  by (auto simp: clear_def split: if_splits dest: length_writeRange)

lemma returnProcessedSamples_shape:
  assumes "returnProcessedSamples s L co outb = Some (s', out)"
  shows "map length (channels out) = map length (channels outb)" "numSamples out = numSamples outb"
    "notYetUsedAudioDataCount s' = notYetUsedAudioDataCount s" "outputOffset s' = outputOffset s - L"
    "fftSize s' = fftSize s" "hopSize s' = hopSize s" "nChIn s' = nChIn s" "nChOut s' = nChOut s"
proof -
  from assms obtain o1 ob o2 where
    1: "forCh 0 co (\<lambda>ch (out, ob).
                          do { dst \<leftarrow> getChannel out ch;
                               b \<leftarrow> getChannel ob ch;
                               o1 \<leftarrow> copy dst 0 b 0 L;
                               b1 \<leftarrow> copy b 0 b L (shiftLength s L);
                               Some (out[ch := o1], ob[ch := b1]) })
                        (channels outb, outputBuffer s) = Some (o1, ob)"
    and 2: "forCh co (getNumChannels outb) (\<lambda>ch out.
                     do { dst \<leftarrow> getChannel out ch;
                          o1 \<leftarrow> clear dst L;
                          Some (out[ch := o1]) }) o1 = Some o2"
    and 3: "s' = s \<lparr> outputBuffer := ob, outputOffset := outputOffset s - L \<rparr>"
           "out = outb \<lparr> channels := o2 \<rparr>"
    unfolding returnProcessedSamples_def Let_def by (auto simp: bind_eq_Some_conv)
  have "map length (fst (o1, ob)) = map length (channels outb)"
    by (rule forCh_invariant [OF 1, where P = "\<lambda>p. map length (fst p) = map length (channels outb)"])
       (auto simp: bind_eq_Some_conv getChannel_Some_iff map_length_update dest!: copy_length)
  then have a: "map length o1 = map length (channels outb)" by simp
  have "map length o2 = map length (channels outb)"
    by (rule forCh_invariant [OF 2, where P = "\<lambda>p. map length p = map length (channels outb)"])
       (auto simp: a bind_eq_Some_conv getChannel_Some_iff map_length_update dest!: clear_length)
  then show "map length (channels out) = map length (channels outb)" using 3 by simp
  show "numSamples out = numSamples outb"
    "notYetUsedAudioDataCount s' = notYetUsedAudioDataCount s" "outputOffset s' = outputOffset s - L"
    "fftSize s' = fftSize s" "hopSize s' = hopSize s" "nChIn s' = nChIn s" "nChOut s' = nChOut s"
    using 3 by simp_all
qed

lemma process_out_shape:
  assumes "process s inp outb = Some (s', out)"
  shows "map length (channels out) = map length (channels outb)" "numSamples out = numSamples outb"
proof -
  from assms obtain s2 where "returnProcessedSamples s2 (numSamples inp)
       (min (getNumChannels outb) (nChOut s)) outb = Some (s', out)"
    unfolding process_def Let_def by (auto simp: bind_eq_Some_conv)
  from returnProcessedSamples_shape(1,2) [OF this]
  show "map length (channels out) = map length (channels outb)" "numSamples out = numSamples outb" .
qed

lemma process_blockOK:
  assumes "process s inp outb = Some (s', out)" "blockOK L outb"
  shows "blockOK L out \<and> getNumChannels out = getNumChannels outb"
proof -
  note sh = process_out_shape [OF assms(1)]
  have l: "length (channels out) = length (channels outb)" using sh(1) by (metis length_map)
  have "length (channels out ! ch) = length (channels outb ! ch)" if "ch < length (channels outb)" for ch
    using sh(1) that l by (metis nth_map)
  then show ?thesis using assms(2) sh(2) l by (auto simp: blockOK_def getNumChannels_def)
qed

lemma returnProcessedSamples_length:
  assumes "returnProcessedSamples s L co outb = Some (s', out)"
  shows "length (outputBuffer s') = length (outputBuffer s)"
proof -
  from assms obtain o1 ob where
    1: "forCh 0 co (\<lambda>ch (out, ob).
                          do { dst \<leftarrow> getChannel out ch;
                               b \<leftarrow> getChannel ob ch;
                               o1 \<leftarrow> copy dst 0 b 0 L;
                               b1 \<leftarrow> copy b 0 b L (shiftLength s L);
                               Some (out[ch := o1], ob[ch := b1]) })
                        (channels outb, outputBuffer s) = Some (o1, ob)"
    and 3: "s' = s \<lparr> outputBuffer := ob, outputOffset := outputOffset s - L \<rparr>"
    unfolding returnProcessedSamples_def Let_def by (auto simp: bind_eq_Some_conv)
  have "length (snd (o1, ob)) = length (outputBuffer s)"
    by (rule forCh_invariant [OF 1, where P = "\<lambda>p. length (snd p) = length (outputBuffer s)"])
       (auto simp: bind_eq_Some_conv)
  then show ?thesis using 3 by simp
qed

lemma writeBackFrame_no_channel:
  "length (outputBuffer s) < nChOut s \<Longrightarrow> writeBackFrame s = None"
  using writeBackFrame_iff [of s] by (cases "writeBackFrame s") (auto simp: writeBackOK_def)

lemma process_more_outputs:
  fixes s :: "'a::{zero,plus,times} engine"
  assumes no: "length (outputBuffer s) < nChOut s" and c: "0 \<le> notYetUsedAudioDataCount s"
    and p: "process s inp outb = Some (s', out)"
  shows "notYetUsedAudioDataCount s + numSamples inp < fftSize s"
    "notYetUsedAudioDataCount s' = notYetUsedAudioDataCount s + numSamples inp"
    "outputOffset s' = outputOffset s - numSamples inp"
    "length (outputBuffer s') = length (outputBuffer s)"
    "fftSize s' = fftSize s" "hopSize s' = hopSize s" "nChIn s' = nChIn s" "nChOut s' = nChOut s"
proof -
  let ?c = "notYetUsedAudioDataCount s" and ?L = "numSamples inp" and ?N = "fftSize s"
  define ci where "ci = min (getNumChannels inp) (nChIn s)"
  define co where "co = min (getNumChannels outb) (nChOut s)"
  have wb: "writeBackFrame (callProcessFrameInBuffer m (s \<lparr> fftInOutBuffer := f \<rparr>)) = None" for m f
    using no by (intro writeBackFrame_no_channel) (simp add: callProcessFrameInBuffer_def)
  have w1: "whileLeftOvers inp ci m s 0 = (if 0 < ?c \<and> ?N \<le> ?c + ?L then None else Some (s, 0))" for m
    by (subst whileLeftOvers.simps) (simp add: wb split: option.splits)
  have w2: "whileInput inp ci m s d = (if ?N \<le> ?L - d then None else Some (s, d))" for m d
    by (subst whileInput.simps) (simp add: wb split: option.splits)
  from p obtain s1 off1 s2 where
      a: "whileLeftOvers inp ci (max ci co) s 0 = Some (s1, off1)"
      and b: "(if notYetUsedAudioDataCount s1 > 0
                  then appendToLeftOvers s1 inp ci ?c 0
                  else consumeInput s1 inp ci (max ci co)) = Some s2"
      and r: "returnProcessedSamples s2 ?L co outb = Some (s', out)"
    unfolding process_def Let_def ci_def [symmetric] co_def [symmetric]
    by (auto simp: bind_eq_Some_conv)
  from a have g1: "\<not> (0 < ?c \<and> ?N \<le> ?c + ?L)" and s1: "s1 = s"
    unfolding w1 by (auto split: if_splits)
  have s2: "?c + ?L < ?N \<and> notYetUsedAudioDataCount s2 = ?c + ?L \<and> outputOffset s2 = outputOffset s
      \<and> outputBuffer s2 = outputBuffer s \<and> fftSize s2 = ?N \<and> hopSize s2 = hopSize s
      \<and> nChIn s2 = nChIn s \<and> nChOut s2 = nChOut s"
  proof (cases "0 < ?c")
    case True
    with b s1 have "appendToLeftOvers s inp ci ?c 0 = Some s2" by simp
    then show ?thesis using g1 True
      unfolding appendToLeftOvers_def by (auto simp: bind_eq_Some_conv)
  next
    case False
    then have c0: "?c = 0" using c by simp
    from b s1 False have "consumeInput s inp ci (max ci co) = Some s2" by simp
    then show ?thesis
      unfolding consumeInput_def w2 c0 by (auto simp: bind_eq_Some_conv Let_def split: if_splits)
  qed
  note sh = returnProcessedSamples_shape [OF r] returnProcessedSamples_length [OF r]
  show "?c + ?L < ?N" using s2 by simp
  show "notYetUsedAudioDataCount s' = ?c + ?L" using s2 sh by simp
  show "outputOffset s' = outputOffset s - ?L" using s2 sh by simp
  show "length (outputBuffer s') = length (outputBuffer s)" using s2 sh by simp
  show "fftSize s' = fftSize s" "hopSize s' = hopSize s" "nChIn s' = nChIn s" "nChOut s' = nChOut s"
    using s2 sh by simp_all
qed

lemma processBlocks_total:
  fixes s :: "'a::{zero,plus,times} engine"
  assumes "engineOK B s" "nChOut s \<le> nChIn s" "callsOK B calls"
  shows "\<exists>s' outs. processBlocks s calls = Some (s', outs) \<and> engineOK B s' \<and>
           nChIn s' = nChIn s \<and> nChOut s' = nChOut s"
  using assms
proof (induction calls arbitrary: s)
  case Nil
  then show ?case by simp
next
  case (Cons c calls)
  obtain i o' where c: "c = (i, o')" by (cases c)
  from Cons.prems(3) obtain L where L: "blockOK L i" "blockOK L o'" "L \<le> B"
    unfolding callsOK_def c by fastforce
  have rest: "callsOK B calls" using Cons.prems(3) unfolding callsOK_def by fastforce
  from process_engineOK [OF Cons.prems(1,2) L] obtain s1 ob where
    p: "process s i o' = Some (s1, ob)" and ok1: "engineOK B s1"
    and ch: "nChIn s1 = nChIn s" "nChOut s1 = nChOut s" by blast
  from Cons.IH [OF ok1 _ rest] ch Cons.prems(2) obtain s2 outs where
    "processBlocks s1 calls = Some (s2, outs)" "engineOK B s2" "nChIn s2 = nChIn s1" "nChOut s2 = nChOut s1"
    by auto
  then show ?case using p ch by (simp add: c)
qed

lemma processBlocks_shape:
  assumes "processBlocks s calls = Some (s', outs)" "callsOK B calls"
  shows "length outs = length calls \<and>
         (\<forall>k < length calls. blockOK (numSamples (fst (calls ! k))) (outs ! k)
              \<and> getNumChannels (outs ! k) = getNumChannels (snd (calls ! k))) \<and>
         (\<Sum>out\<leftarrow>outs. numSamples out) = (\<Sum>c\<leftarrow>calls. numSamples (fst c))"
  using assms
proof (induction calls arbitrary: s outs)
  case Nil
  then show ?case by simp
next
  case (Cons c calls)
  obtain i o' where c: "c = (i, o')" by (cases c)
  from Cons.prems(2) obtain L where L: "blockOK L i" "blockOK L o'" "L \<le> B"
    unfolding callsOK_def c by fastforce
  have rest: "callsOK B calls" using Cons.prems(2) unfolding callsOK_def by fastforce
  from Cons.prems(1) obtain s1 ob outs1 where
    p: "process s i o' = Some (s1, ob)" and r: "processBlocks s1 calls = Some (s', outs1)"
    and outs: "outs = ob # outs1"
    by (auto simp: c split: option.splits)
  note IH = Cons.IH [OF r rest]
  have b: "blockOK L ob \<and> getNumChannels ob = getNumChannels o'"
    using process_blockOK [OF p L(2)] .
  have nL: "numSamples i = L" "numSamples ob = L" using L(1) b by (auto simp: blockOK_def)
  show ?case
  proof (intro conjI allI impI)
    show "length outs = length (c # calls)" using IH outs by simp
    show "(\<Sum>out\<leftarrow>outs. numSamples out) = (\<Sum>c\<leftarrow>c # calls. numSamples (fst c))"
      using IH outs nL c by simp
    fix k assume k: "k < length (c # calls)"
    show "blockOK (numSamples (fst ((c # calls) ! k))) (outs ! k)"
      using IH b nL outs c k by (cases k) auto
    show "getNumChannels (outs ! k) = getNumChannels (snd ((c # calls) ! k))"
      using IH b outs c k by (cases k) auto
  qed
qed

lemma processBlocks_count_more_outputs:
  fixes s :: "'a::{zero,plus,times} engine"
  assumes "length (outputBuffer s) < nChOut s" "0 \<le> notYetUsedAudioDataCount s"
    "notYetUsedAudioDataCount s \<le> fftSize s - 1" "callsOK B calls"
    "processBlocks s calls = Some (s', outs)"
  shows "0 \<le> notYetUsedAudioDataCount s' \<and> notYetUsedAudioDataCount s' \<le> fftSize s' - 1"
  using assms
proof (induction calls arbitrary: s outs)
  case Nil
  then show ?case by simp
next
  case (Cons c calls)
  obtain i o' where c: "c = (i, o')" by (cases c)
  from Cons.prems(4) obtain L where L: "blockOK L i" "blockOK L o'" "L \<le> B"
    unfolding callsOK_def c by fastforce
  have rest: "callsOK B calls" using Cons.prems(4) unfolding callsOK_def by fastforce
  from Cons.prems(5) obtain s1 ob outs1 where
    p: "process s i o' = Some (s1, ob)" and r: "processBlocks s1 calls = Some (s', outs1)"
    by (auto simp: c split: option.splits)
  note m = process_more_outputs [OF Cons.prems(1,2) p]
  have "0 \<le> numSamples i" using L(1) by (simp add: blockOK_def)
  then show ?case
    using Cons.IH [OF _ _ _ rest r] m Cons.prems(1,2) by simp
qed

text \<open>
  C8. From a prepared engine, after every sequence of \<^verbatim>\<open>process\<close> calls whose blocks have at
  most \<^verbatim>\<open>maxBlockSize\<close> samples, the carry-over count is between 0 and \<^verbatim>\<open>fftSize - 1\<close>,
  the number of samples allocated per channel of the carry-over buffer; and the sequence does
  return whenever the engine was prepared with no more output than input channels.
\<close>

theorem carry_over_bounded:
  fixes s :: "'a::{zero,plus,times} engine"
  assumes "engineOK B s" and "callsOK B calls"
  shows "(\<forall>s' outs. processBlocks s calls = Some (s', outs) \<longrightarrow>
            0 \<le> notYetUsedAudioDataCount s' \<and> notYetUsedAudioDataCount s' \<le> fftSize s' - 1)
       \<and> (nChOut s \<le> nChIn s \<longrightarrow>
            (\<exists>s' outs. processBlocks s calls = Some (s', outs) \<and>
               (\<forall>ch < nChIn s'. notYetUsedAudioDataCount s'
                                    \<le> int (length (notYetUsedAudioData s' ! ch)))))"
proof (intro conjI allI impI)
  fix s' outs assume p: "processBlocks s calls = Some (s', outs)"
  have c: "0 \<le> notYetUsedAudioDataCount s" "notYetUsedAudioDataCount s \<le> fftSize s - 1"
    and len: "length (outputBuffer s) = nChIn s"
    using assms(1) by (auto simp: engineOK_def shapeOK_def)
  have both: "0 \<le> notYetUsedAudioDataCount s' \<and> notYetUsedAudioDataCount s' \<le> fftSize s' - 1"
  proof (cases "nChOut s \<le> nChIn s")
    case True
    from processBlocks_total [OF assms(1) True assms(2)] p have "engineOK B s'" by auto
    then show ?thesis by (simp add: engineOK_def)
  next
    case False
    then have "length (outputBuffer s) < nChOut s" using len by simp
    from processBlocks_count_more_outputs [OF this c assms(2) p] show ?thesis .
  qed
  then show "0 \<le> notYetUsedAudioDataCount s'" "notYetUsedAudioDataCount s' \<le> fftSize s' - 1"
    by simp_all
next
  assume "nChOut s \<le> nChIn s"
  from processBlocks_total [OF assms(1) this assms(2)]
  obtain s' outs where p: "processBlocks s calls = Some (s', outs)" and ok: "engineOK B s'" by blast
  from ok have "\<forall>ch < nChIn s'. notYetUsedAudioDataCount s' \<le> int (length (notYetUsedAudioData s' ! ch))"
    by (simp add: engineOK_def shapeOK_def)
  with p show "\<exists>s' outs. processBlocks s calls = Some (s', outs) \<and>
               (\<forall>ch < nChIn s'. notYetUsedAudioDataCount s'
                                    \<le> int (length (notYetUsedAudioData s' ! ch)))" by blast
qed


lemma int32_eq: "- (2 ^ 31) \<le> x \<Longrightarrow> x < 2 ^ 31 \<Longrightarrow> int32 x = Some x"
  by (simp add: int32_def)

lemma prepareOffsetLoop_Some:
  assumes "0 < bufferSize" "fftSz + bufferSize \<le> 2 ^ 31" "0 \<le> offset"
  shows "\<exists>r. prepareOffsetLoop fftSz bufferSize offset = Some r"
  using assms
proof (induction "nat (fftSz - offset)" arbitrary: offset rule: less_induct)
  case less
  show ?case
  proof (cases "offset < fftSz")
    case False
    then show ?thesis by (subst prepareOffsetLoop.simps) simp
  next
    case True
    then have "nat (fftSz - (offset + bufferSize)) < nat (fftSz - offset)" using less.prems by simp
    moreover have "0 \<le> offset + bufferSize" using less.prems by simp
    ultimately obtain r where "prepareOffsetLoop fftSz bufferSize (offset + bufferSize) = Some r"
      using less.hyps less.prems by blast
    moreover have "int32 (offset + bufferSize) = Some (offset + bufferSize)"
      using True less.prems by (simp add: int32_def)
    ultimately show ?thesis using True by (subst prepareOffsetLoop.simps) simp
  qed
qed


lemma setSize_Some:
  "0 \<le> n \<Longrightarrow> setSize mem nCh n = Some b \<Longrightarrow>
     length b = nCh \<and> (\<forall>ch < nCh. int (length (b ! ch)) = n)"
  by (auto simp: setSize_def)


lemma floatHops_example: "\<lfloor>floatHops 3 2\<rfloor> = 2"
proof -
  have "floatHops 3 2 = 1 + of_int 3 / of_int 2" by (rule floatHops_exact [of 2 1 3]) simp_all
  then show ?thesis by (simp add: floor_eq_iff)
qed

lemmas prepare_simps =
  prepare_def setSize_def clearBuffer_def prepareOffsetLoop.simps int32_eq floatHops_example
  upt_rec numeral_nat Let_def

lemma example_prepared:
  "OverlappingFFTProcessor exampleTable 2 1 \<bind> (\<lambda>e. prepare (\<lambda>ch i. 0) (\<lambda>ch i. 0) e 4 1 1)
   = Some exampleEngine"
  by (simp add: OverlappingFFTProcessor_def exampleTable_def createWindow_def hopSizeCompensateFactor_def
      prepare_simps exampleEngine_def)

lemma example_engineOK: "engineOK 4 exampleEngine"
  by (simp add: engineOK_def shapeOK_def exampleEngine_def outputBufferSize_def floatHops_example)

lemma example_callsOK: "callsOK 4 exampleCalls"
  by (auto simp: callsOK_def exampleCalls_def blockOK_def monoBlock_def less_Suc_eq numeral_2_eq_2)

lemmas eval_simps =
  process_def whileLeftOvers.simps whileInput.simps consumeInput_def appendToLeftOvers_def
  fillFromLeftOvers_def fillFromInput_def writeBackFrame_def callProcessFrameInBuffer_def
  returnProcessedSamples_def shiftLength_def tooMuch_def getNumChannels_def
  forCh.simps addFrom_def copyFrom_def multiply_def copy_def clear_def getChannel_def
  readRange_def writeRange_def Let_def

lemma example_run:
  "map_option (\<lambda>(s, outs). (map channels outs, notYetUsedAudioDataCount s, outputOffset s))
     (processBlocks exampleEngine exampleCalls)
   = Some ([[[0, 0, 0]], [[0, 1, 3, 4]]], 3, 0)"
  by (simp add: exampleEngine_def exampleCalls_def monoBlock_def eval_simps)


theorem carry_over_bounded_witness:
  "engineOK 4 exampleEngine \<and> callsOK 4 exampleCalls \<and> nChOut exampleEngine \<le> nChIn exampleEngine \<and>
   (\<exists>s' outs. processBlocks exampleEngine exampleCalls = Some (s', outs) \<and>
       notYetUsedAudioDataCount s' = 3 \<and>
       0 \<le> notYetUsedAudioDataCount s' \<and> notYetUsedAudioDataCount s' \<le> fftSize s' - 1)"
proof -
  obtain s' outs where p: "processBlocks exampleEngine exampleCalls = Some (s', outs)"
    and c: "notYetUsedAudioDataCount s' = 3"
    using example_run by (auto simp: map_option_case split: option.splits)
  have io: "nChOut exampleEngine \<le> nChIn exampleEngine" by (simp add: exampleEngine_def)
  from carry_over_bounded [OF example_engineOK example_callsOK] p
  have "0 \<le> notYetUsedAudioDataCount s'" "notYetUsedAudioDataCount s' \<le> fftSize s' - 1" by blast+
  with p c io example_engineOK example_callsOK show ?thesis
    by - (intro conjI exI [of _ s'] exI [of _ outs]; assumption)
qed

text \<open>
  C6, as the code has it. \<^verbatim>\<open>OverlappingFFTProcessor::reset\<close> changes nothing, the carry-over
  count included; \<^verbatim>\<open>FftWithHopSizeAndHannWindowProcessor::reset\<close> sets the carry-over count to
  zero and changes no buffer and no other counter.
\<close>

theorem reset_effect:
  "reset s = s \<and>
   notYetUsedAudioDataCount_T (reset_T t) = 0 \<and>
   notYetUsedAudioData_T (reset_T t) = notYetUsedAudioData_T t \<and>
   fftInOutBuffer_T (reset_T t) = fftInOutBuffer_T t \<and>
   outputBuffer_T (reset_T t) = outputBuffer_T t \<and>
   outputOffset_T (reset_T t) = outputOffset_T t \<and>
   hannWindow (reset_T t) = hannWindow t"
  by (simp add: reset_def reset_T_def)

theorem reset_keeps_count:
  "process exampleEngine (monoBlock [1, 2, 3]) (monoBlock [0, 0, 0])
     = Some (exampleAfterThree, monoBlock [0, 0, 0]) \<and>
   notYetUsedAudioDataCount (reset exampleAfterThree) = 3"
  by (simp add: exampleAfterThree_def exampleEngine_def monoBlock_def reset_def eval_simps)

text \<open>
  C5 at an engine prepared for one input and two output channels: \<^verbatim>\<open>prepare\<close> gives the
  output buffer one channel, and the first frame that completes is written back to channel 1
  of it, which does not exist.
\<close>

theorem write_back_outside_output_buffer:
  "OverlappingFFTProcessor exampleTable 2 1 \<bind> (\<lambda>e. prepare (\<lambda>ch i. 0) (\<lambda>ch i. 0) e 4 1 2)
     = Some wideEngine \<and>
   length (outputBuffer wideEngine) = 1 \<and> nChOut wideEngine = 2 \<and>
   process wideEngine (monoBlock [1, 2, 3, 4]) (stereoBlock [0, 0, 0, 0] [0, 0, 0, 0]) = None"
  by (simp add: OverlappingFFTProcessor_def exampleTable_def createWindow_def hopSizeCompensateFactor_def
      prepare_simps wideEngine_def monoBlock_def stereoBlock_def eval_simps)

lemma whileLeftOvers_input_half:
  assumes n: "numSamples a = numSamples b"
    and f: "\<And>s off. fillFromLeftOvers s a ci off = fillFromLeftOvers s b ci off"
    and r: "whileLeftOvers a ci m s off = Some r"
  shows "whileLeftOvers b ci m s off = Some r"
proof -
  have "a = a \<longrightarrow> ci = ci \<longrightarrow> whileLeftOvers b ci m s off = Some r"
  proof (rule whileLeftOvers.raw_induct [where P = "\<lambda>inp ci' m s off r.
             inp = a \<longrightarrow> ci' = ci \<longrightarrow> whileLeftOvers b ci m s off = Some r", OF _ r])
    fix g inp ci' m s off r
    assume IH: "\<And>inp ci' m s off y. g inp ci' m s off = Some y \<Longrightarrow>
                  inp = a \<longrightarrow> ci' = ci \<longrightarrow> whileLeftOvers b ci m s off = Some y"
      and body: "(if 0 < notYetUsedAudioDataCount s \<and>
         fftSize s \<le> notYetUsedAudioDataCount s + numSamples inp
      then case fillFromLeftOvers s inp ci' off of
           None \<Rightarrow> None
           | Some fft \<Rightarrow>
               case writeBackFrame (callProcessFrameInBuffer m (s\<lparr>fftInOutBuffer := fft\<rparr>)) of
               None \<Rightarrow> None
               | Some s' \<Rightarrow>
                   g inp ci' m
                    (s'\<lparr>notYetUsedAudioDataCount := notYetUsedAudioDataCount s' - hopSize s'\<rparr>)
                    (off + hopSize s')
      else Some (s, off)) = Some r"
    show "inp = a \<longrightarrow> ci' = ci \<longrightarrow> whileLeftOvers b ci m s off = Some r"
    proof (intro impI)
      assume e: "inp = a" "ci' = ci"
      have IH': "\<And>m s off y. g a ci m s off = Some y \<Longrightarrow> whileLeftOvers b ci m s off = Some y"
        using IH by blast
      show "whileLeftOvers b ci m s off = Some r"
        using body unfolding e
        by (subst whileLeftOvers.simps) (auto simp: n f IH' split: if_splits option.splits)
    qed
  qed
  then show ?thesis by simp
qed

lemma whileLeftOvers_input_cong:
  assumes n: "numSamples a = numSamples b"
    and f: "\<And>s off. fillFromLeftOvers s a ci off = fillFromLeftOvers s b ci off"
  shows "whileLeftOvers a ci m s off = whileLeftOvers b ci m s off"
proof (cases "whileLeftOvers a ci m s off")
  case (Some r)
  then show ?thesis using whileLeftOvers_input_half [OF n f Some] by simp
next
  case None
  show ?thesis
  proof (cases "whileLeftOvers b ci m s off")
    case (Some r)
    then show ?thesis using whileLeftOvers_input_half [OF n [symmetric] f [symmetric] Some] by simp
  qed (simp add: None)
qed

lemma whileInput_input_half:
  assumes n: "numSamples a = numSamples b"
    and f: "\<And>s off. fillFromInput s a ci off = fillFromInput s b ci off"
    and r: "whileInput a ci m s off = Some r"
  shows "whileInput b ci m s off = Some r"
proof -
  have "a = a \<longrightarrow> ci = ci \<longrightarrow> whileInput b ci m s off = Some r"
  proof (rule whileInput.raw_induct [where P = "\<lambda>inp ci' m s off r.
             inp = a \<longrightarrow> ci' = ci \<longrightarrow> whileInput b ci m s off = Some r", OF _ r])
    fix g inp ci' m s off r
    assume IH: "\<And>inp ci' m s off y. g inp ci' m s off = Some y \<Longrightarrow>
                  inp = a \<longrightarrow> ci' = ci \<longrightarrow> whileInput b ci m s off = Some y"
      and body: "(if fftSize s \<le> numSamples inp - off
      then case fillFromInput s inp ci' off of
           None \<Rightarrow> None
           | Some fft \<Rightarrow>
               case writeBackFrame (callProcessFrameInBuffer m (s\<lparr>fftInOutBuffer := fft\<rparr>)) of
               None \<Rightarrow> None
               | Some s' \<Rightarrow> g inp ci' m s' (off + hopSize s')
      else Some (s, off)) = Some r"
    show "inp = a \<longrightarrow> ci' = ci \<longrightarrow> whileInput b ci m s off = Some r"
    proof (intro impI)
      assume e: "inp = a" "ci' = ci"
      have IH': "\<And>m s off y. g a ci m s off = Some y \<Longrightarrow> whileInput b ci m s off = Some y"
        using IH by blast
      show "whileInput b ci m s off = Some r"
        using body unfolding e
        by (subst whileInput.simps) (auto simp: n f IH' split: if_splits option.splits)
    qed
  qed
  then show ?thesis by simp
qed

lemma whileInput_input_cong:
  assumes n: "numSamples a = numSamples b"
    and f: "\<And>s off. fillFromInput s a ci off = fillFromInput s b ci off"
  shows "whileInput a ci m s off = whileInput b ci m s off"
proof (cases "whileInput a ci m s off")
  case (Some r)
  then show ?thesis using whileInput_input_half [OF n f Some] by simp
next
  case None
  show ?thesis
  proof (cases "whileInput b ci m s off")
    case (Some r)
    then show ?thesis using whileInput_input_half [OF n [symmetric] f [symmetric] Some] by simp
  qed (simp add: None)
qed

lemma process_input_cong:
  fixes s :: "'a::{zero,plus,times} engine"
  assumes t: "take (nChIn s) (channels inp1) = take (nChIn s) (channels inp2)"
    and n: "numSamples inp1 = numSamples inp2"
  shows "process s inp1 outb = process s inp2 outb"
proof -
  define ci where "ci = min (getNumChannels inp1) (nChIn s)"
  have "length (take (nChIn s) (channels inp1)) = length (take (nChIn s) (channels inp2))"
    using t by simp
  then have ci2: "min (getNumChannels inp2) (nChIn s) = ci"
    by (simp add: ci_def getNumChannels_def)
  have gc: "getChannel (channels inp1) ch = getChannel (channels inp2) ch" if "ch < ci" for ch
  proof -
    have l: "ch < length (channels inp1)" "ch < length (channels inp2)" "ch < nChIn s"
      using that ci2 by (auto simp: ci_def getNumChannels_def)
    have "channels inp1 ! ch = take (nChIn s) (channels inp1) ! ch" using l by simp
    also have "\<dots> = channels inp2 ! ch" unfolding t using l by simp
    finally show ?thesis using l by (simp add: getChannel_def)
  qed
  have f1: "fillFromLeftOvers s' inp1 ci off = fillFromLeftOvers s' inp2 ci off" for s' :: "'a engine" and off
    unfolding fillFromLeftOvers_def by (rule forCh_cong) (simp add: gc)
  have f2: "fillFromInput s' inp1 ci off = fillFromInput s' inp2 ci off" for s' :: "'a engine" and off
    unfolding fillFromInput_def by (rule forCh_cong) (simp add: gc)
  have w1: "whileLeftOvers inp1 ci m s' off = whileLeftOvers inp2 ci m s' off" for m off and s' :: "'a engine"
    by (rule whileLeftOvers_input_cong [OF n f1])
  have w2: "whileInput inp1 ci m s' off = whileInput inp2 ci m s' off" for m off and s' :: "'a engine"
    by (rule whileInput_input_cong [OF n f2])
  have a: "appendToLeftOvers s' inp1 ci i u = appendToLeftOvers s' inp2 ci i u" for i u and s' :: "'a engine"
  proof -
    have "forCh 0 ci (\<lambda>ch nyu.
                  do { d \<leftarrow> getChannel nyu ch;
                       d1 \<leftarrow> copy d 0 d (i - notYetUsedAudioDataCount s') (notYetUsedAudioDataCount s');
                       i \<leftarrow> getChannel (channels inp1) ch;
                       d2 \<leftarrow> copy d1 (notYetUsedAudioDataCount s') i u (numSamples inp1);
                       Some (nyu[ch := d2]) }) (notYetUsedAudioData s')
       = forCh 0 ci (\<lambda>ch nyu.
                  do { d \<leftarrow> getChannel nyu ch;
                       d1 \<leftarrow> copy d 0 d (i - notYetUsedAudioDataCount s') (notYetUsedAudioDataCount s');
                       i \<leftarrow> getChannel (channels inp2) ch;
                       d2 \<leftarrow> copy d1 (notYetUsedAudioDataCount s') i u (numSamples inp2);
                       Some (nyu[ch := d2]) }) (notYetUsedAudioData s')"
      by (rule forCh_cong) (simp add: gc n)
    then show ?thesis unfolding appendToLeftOvers_def by (simp add: n)
  qed
  have st: "forCh 0 ci (\<lambda>ch nyu.
                         do { d \<leftarrow> getChannel nyu ch;
                              i \<leftarrow> getChannel (channels inp1) ch;
                              d1 \<leftarrow> copy d 0 i dOff (numSamples inp2 - dOff);
                              Some (nyu[ch := d1]) }) nyu
          = forCh 0 ci (\<lambda>ch nyu.
                         do { d \<leftarrow> getChannel nyu ch;
                              i \<leftarrow> getChannel (channels inp2) ch;
                              d1 \<leftarrow> copy d 0 i dOff (numSamples inp2 - dOff);
                              Some (nyu[ch := d1]) }) nyu" for dOff and nyu :: "'a list list"
    by (rule forCh_cong) (simp add: gc)
  have c: "consumeInput s' inp1 ci m = consumeInput s' inp2 ci m" for m and s' :: "'a engine"
    unfolding consumeInput_def w2 Let_def n st ..
  show ?thesis
    unfolding process_def Let_def ci2 ci_def [symmetric] w1 a c n ..
qed

lemma returnProcessedSamples_cleared:
  assumes r: "returnProcessedSamples s L co outb = Some (s', out)"
    and ch: "co \<le> ch" "ch < getNumChannels outb"
  shows "take (nat L) (channels out ! ch) = replicate (nat L) 0"
proof -
  from r obtain o1 ob o2 where
    2: "forCh co (getNumChannels outb) (\<lambda>ch out.
                     do { dst \<leftarrow> getChannel out ch;
                          o1 \<leftarrow> clear dst L;
                          Some (out[ch := o1]) }) o1 = Some o2"
    and 3: "out = outb \<lparr> channels := o2 \<rparr>"
    unfolding returnProcessedSamples_def Let_def by (auto simp: bind_eq_Some_conv)
  have body: "\<And>ch b. do { dst \<leftarrow> getChannel b ch; o1 \<leftarrow> clear dst L; Some (b[ch := o1]) }
                = do { d \<leftarrow> getChannel b ch; d' \<leftarrow> clear d L; Some (b[ch := d']) }" by simp
  from 2 have len: "getNumChannels outb \<le> length o1"
    and ok: "clear (o1 ! ch) L \<noteq> None"
    and o2: "o2 = chanUpd co (getNumChannels outb) (\<lambda>ch d. the (clear d L)) o1"
    unfolding forCh_chanwise [of _ "\<lambda>ch d. clear d L", OF body] using ch by auto
  from ok obtain d where d: "clear (o1 ! ch) L = Some d" by auto
  then have "d = replicate (nat L) 0 @ drop (nat L) (o1 ! ch)" "0 \<le> L"
    by (auto simp: clear_def writeRange_Some_iff split: if_splits)
  then have "take (nat L) d = replicate (nat L) 0" by simp
  moreover have "channels out ! ch = d" using 3 o2 ch len d by (simp add: nth_chanUpd)
  ultimately show ?thesis by simp
qed

lemma example_stereo_process:
  "map_option (\<lambda>(s, out). channels out)
     (process exampleEngine (stereoBlock [1, 2, 3, 4] [9, 9, 9, 9]) (stereoBlock [5, 5, 5, 5] [5, 5, 5, 5]))
   = Some [[0, 0, 0, 0], replicate 4 0]"
  by (simp add: exampleEngine_def stereoBlock_def eval_simps)










text \<open>
  C1 at an engine prepared for one input and two output channels, and a call with one
  sample: the loop that returns the processed samples reads channel 1 of the output buffer,
  which \<^verbatim>\<open>prepare\<close> has given one channel, so the call has no defined result and returns
  no sample. The defect is the one of C5.
\<close>

theorem no_samples_from_wide_engine:
  "OverlappingFFTProcessor exampleTable 2 1 \<bind> (\<lambda>e. prepare (\<lambda>ch i. 0) (\<lambda>ch i. 0) e 4 1 2)
     = Some wideEngine \<and>
   length (outputBuffer wideEngine) = 1 \<and> nChOut wideEngine = 2 \<and>
   process wideEngine (monoBlock [1]) (stereoBlock [0] [0]) = None"
  by (simp add: OverlappingFFTProcessor_def exampleTable_def createWindow_def hopSizeCompensateFactor_def
      prepare_simps wideEngine_def monoBlock_def stereoBlock_def eval_simps)

text \<open>
  C10 at the same engine and an output block of three channels: the call faults in the loop
  that returns the processed samples, at channel 1, before the loop that clears the channels
  from \<^verbatim>\<open>numChOut\<close> on is reached; channel 2 of the caller's block is not zero-filled.
  The defect is the one of C5.
\<close>

theorem extra_channel_not_cleared_on_wide_engine:
  "OverlappingFFTProcessor exampleTable 2 1 \<bind> (\<lambda>e. prepare (\<lambda>ch i. 0) (\<lambda>ch i. 0) e 4 1 2)
     = Some wideEngine \<and>
   min (getNumChannels \<lparr> channels = [[5], [5], [5 :: real]], numSamples = 1 \<rparr>) (nChOut wideEngine) = 2 \<and>
   process wideEngine (monoBlock [1]) \<lparr> channels = [[5], [5], [5]], numSamples = 1 \<rparr> = None"
  by (simp add: OverlappingFFTProcessor_def exampleTable_def createWindow_def hopSizeCompensateFactor_def
      prepare_simps wideEngine_def monoBlock_def eval_simps)


















lemma example_mid_reached:
  "process (exampleEngine \<lparr> processFrameInBuffer := doubling \<rparr>)
       (monoBlock [1, 2, 3, 4]) (monoBlock [0, 0, 0, 0])
     = Some (exampleMid, monoBlock [0, 0, 0, 0])"
  by (simp add: exampleMid_def exampleEngine_def monoBlock_def doubling_def eval_simps)






end
